theory Spec2Isabelle
  imports Complex_Main "HOL-Library.Word"
begin

unbundle bit_operations_syntax

section \<open>Buffers and exceptions\<close>

text \<open>
  A Node \<open>Buffer\<close> (and the contents of a \<open>BufferList\<close>) is a list of bytes. JavaScript
  numbers that are read from bytes, and all offsets and lengths, are non-negative integers
  and are modelled as \<open>nat\<close>; numbers supplied by a caller (which may be negative) are
  \<open>int\<close>. An exception is the \<open>Inl\<close> of a sum.
\<close>

type_synonym byte = "8 word"
type_synonym buffer = "byte list"

datatype error =
    RangeError            \<comment> \<open>a Buffer read past the end\<close>
  | OutOfBounds           \<comment> \<open>a Buffer write of a value that does not fit the field\<close>
  | ValueNegative         \<comment> \<open>\<open>Error('Value must be greater than zero: ...')\<close>\<close>
  | ValueTooLarge         \<comment> \<open>\<open>Error('Value is too large to encode: ...')\<close>\<close>
  | LengthTooLong         \<comment> \<open>\<open>Error('Length too long: ...')\<close>\<close>
  | UncaughtErrorEvent    \<comment> \<open>\<open>emit('error', ...)\<close> on a stream with no listener\<close>

definition bindE :: "error + 'a \<Rightarrow> ('a \<Rightarrow> error + 'b) \<Rightarrow> error + 'b" where
  "bindE m f = (case m of Inl e \<Rightarrow> Inl e | Inr x \<Rightarrow> f x)"

text \<open>
  \<open>buf.slice(start, end)\<close> for \<open>0 \<le> start\<close>: both \<open>Buffer.slice\<close> and \<open>BufferList.slice\<close>
  clamp the range to the bytes that exist and never throw.
\<close>

definition slice :: "buffer \<Rightarrow> nat \<Rightarrow> nat \<Rightarrow> buffer" where
  "slice buf start end = take (end - start) (drop start buf)"

text \<open>Big-endian value of a run of bytes, and the big-endian bytes of a value.\<close>

definition be_value :: "byte list \<Rightarrow> nat" where
  "be_value bs = foldl (\<lambda>acc b. acc * 256 + unat b) 0 bs"

fun be_bytes :: "nat \<Rightarrow> int \<Rightarrow> byte list" where
  "be_bytes 0 v = []"
| "be_bytes (Suc n) v = be_bytes n (v div 256) @ [word_of_int v]"

text \<open>
  \<open>buf.readUInt8(offset)\<close>, \<open>buf.readUIntBE(offset, byteLength)\<close>: a RangeError when the
  field does not lie inside the buffer. On a \<open>BufferList\<close> the fixed-width reads are
  \<open>this.slice(offset, offset + n).readX(0)\<close>, which is the same function.
\<close>

definition readUIntBE :: "buffer \<Rightarrow> nat \<Rightarrow> nat \<Rightarrow> error + nat" where
  "readUIntBE buf off n =
     (if off + n \<le> length buf then Inr (be_value (slice buf off (off + n)))
      else Inl RangeError)"

definition readUInt8 :: "buffer \<Rightarrow> nat \<Rightarrow> error + nat" where
  "readUInt8 buf off = readUIntBE buf off 1"

definition readUInt16BE :: "buffer \<Rightarrow> nat \<Rightarrow> error + nat" where
  "readUInt16BE buf off = readUIntBE buf off 2"

definition readUInt32BE :: "buffer \<Rightarrow> nat \<Rightarrow> error + nat" where
  "readUInt32BE buf off = readUIntBE buf off 4"

text \<open>
  \<open>buf.writeUIntBE(value, 0, n)\<close> on a fresh buffer of \<open>n\<close> bytes: the bytes written, or
  an exception when the value does not fit \<open>n\<close> bytes.
\<close>

definition writeUIntBE :: "int \<Rightarrow> nat \<Rightarrow> error + buffer" where
  "writeUIntBE v n =
     (if 0 \<le> v \<and> v < 256 ^ n then Inr (be_bytes n v) else Inl OutOfBounds)"

section \<open>Variable-length integers\<close>

text \<open>
  \<open>readVarInt(buf, index)\<close> returns \<open>{length, value}\<close>, here the pair \<open>(length, value)\<close>.
  The shifts and ORs are JavaScript's 32-bit ones; every operand is below \<open>2 ^ 30\<close>, so
  they are the unbounded operations.
\<close>

definition readVarInt :: "buffer \<Rightarrow> nat \<Rightarrow> error + (nat \<times> nat)" where
  "readVarInt buf0 index =
     (let buf = slice buf0 index (index + 4) in
      bindE (readUInt8 buf 0) (\<lambda>first.
        let type = first AND 0xC0;
            val = first AND 0x3F
        in if type = 0x00 then Inr (1, val)
           else if type = 0x40 then
             bindE (readUIntBE buf 1 1) (\<lambda>r. Inr (2, push_bit 8 val OR r))
           else if type = 0x80 then
             bindE (readUIntBE buf 1 2) (\<lambda>r. Inr (3, push_bit 16 val OR r))
           else
             bindE (readUIntBE buf 1 3) (\<lambda>r. Inr (4, push_bit 24 val OR r))))"

text \<open>
  \<open>writeVarInt(value)\<close>. \<open>(value | c) >>> 0\<close> is the OR taken modulo \<open>2 ^ 32\<close>.
\<close>

definition writeVarInt :: "int \<Rightarrow> error + buffer" where
  "writeVarInt v =
     (if v < 0 then Inl ValueNegative
      else if v < 64 then writeUIntBE v 1
      else if v < 16384 then writeUIntBE (take_bit 32 (v OR 0x4000)) 2
      else if v < 4194304 then writeUIntBE (take_bit 32 (v OR 0x800000)) 3
      else if v < 1073741824 then writeUIntBE (take_bit 32 (v OR 0xC0000000)) 4
      else Inl ValueTooLarge)"

section \<open>Strings\<close>

text \<open>
  A JavaScript string is a sequence of UTF-16 code units. \<open>js\<close> writes an ASCII literal as
  such a string.
\<close>

type_synonym jsstring = "16 word list"

definition js :: "string \<Rightarrow> jsstring" where
  "js s = map (\<lambda>c. of_nat (of_char c)) s"

definition is_high :: "16 word \<Rightarrow> bool" where
  "is_high u \<longleftrightarrow> 0xD800 \<le> unat u \<and> unat u < 0xDC00"

definition is_low :: "16 word \<Rightarrow> bool" where
  "is_low u \<longleftrightarrow> 0xDC00 \<le> unat u \<and> unat u < 0xE000"

text \<open>
  The UTF-8 conversions are Node's (\<open>Buffer.byteLength(str, 'utf8')\<close>, \<open>buf.write(str,
  ..., 'utf8')\<close>, \<open>buf.toString('utf8')\<close>). Encoding joins a surrogate pair into one code
  point and writes U+FFFD for a surrogate that has no partner. Decoding accepts the
  well-formed sequences of the Unicode standard. Where the bytes start none, it yields one
  U+FFFD for the longest prefix of a well-formed sequence that stands there (a lead byte
  with the continuation bytes it admits, \<open>subpart3\<close> and \<open>subpart4\<close> count them), or for
  the single byte if there is no such prefix, and goes on behind it.
\<close>

definition utf8_of_cp :: "nat \<Rightarrow> byte list" where
  "utf8_of_cp c =
     (if c < 0x80 then [of_nat c]
      else if c < 0x800 then [of_nat (0xC0 + c div 64), of_nat (0x80 + c mod 64)]
      else if c < 0x10000 then
        [of_nat (0xE0 + c div 4096), of_nat (0x80 + c div 64 mod 64), of_nat (0x80 + c mod 64)]
      else
        [of_nat (0xF0 + c div 262144), of_nat (0x80 + c div 4096 mod 64),
         of_nat (0x80 + c div 64 mod 64), of_nat (0x80 + c mod 64)])"

definition unit_cp :: "16 word \<Rightarrow> nat" where
  "unit_cp u = (if is_high u \<or> is_low u then 0xFFFD else unat u)"

definition pair_cp :: "16 word \<Rightarrow> 16 word \<Rightarrow> nat" where
  "pair_cp h l = 0x10000 + (unat h - 0xD800) * 1024 + (unat l - 0xDC00)"

fun utf8_encode :: "jsstring \<Rightarrow> byte list" where
  "utf8_encode [] = []"
| "utf8_encode [u] = utf8_of_cp (unit_cp u)"
| "utf8_encode (u # l # us) =
     (if is_high u \<and> is_low l then utf8_of_cp (pair_cp u l) @ utf8_encode us
      else utf8_of_cp (unit_cp u) @ utf8_encode (l # us))"

definition is_cont :: "byte \<Rightarrow> bool" where
  "is_cont b \<longleftrightarrow> unat b div 64 = 2"

definition cont_bits :: "byte \<Rightarrow> nat" where
  "cont_bits b = unat b mod 64"

text \<open>The code point at the head of a byte sequence, and how many further bytes it takes.\<close>

definition subpart3 :: "nat \<Rightarrow> byte list \<Rightarrow> nat" where
  "subpart3 a bs =
     (case bs of
        [] \<Rightarrow> 0
      | c1 # _ \<Rightarrow>
          if is_cont c1
             \<and> (if a = 0xE0 then 0xA0 \<le> unat c1 else if a = 0xED then unat c1 < 0xA0 else True)
          then 1 else 0)"

definition subpart4 :: "nat \<Rightarrow> byte list \<Rightarrow> nat" where
  "subpart4 a bs =
     (case bs of
        [] \<Rightarrow> 0
      | c1 # rest \<Rightarrow>
          if is_cont c1 \<and> a \<le> 0xF4
             \<and> (if a = 0xF0 then 0x90 \<le> unat c1 else if a = 0xF4 then unat c1 < 0x90 else True)
          then (case rest of [] \<Rightarrow> 1 | c2 # _ \<Rightarrow> if is_cont c2 then 2 else 1)
          else 0)"

definition utf8_first :: "byte \<Rightarrow> byte list \<Rightarrow> nat \<times> nat" where
  "utf8_first b bs =
     (let a = unat b in
      if a < 0x80 then (a, 0)
      else if a div 32 = 6 then
        (case bs of
           c1 # _ \<Rightarrow>
             (let cp = (a mod 32) * 64 + cont_bits c1
              in if is_cont c1 \<and> 0x80 \<le> cp then (cp, 1) else (0xFFFD, 0))
         | _ \<Rightarrow> (0xFFFD, 0))
      else if a div 16 = 14 then
        (case bs of
           c1 # c2 # _ \<Rightarrow>
             (let cp = ((a mod 16) * 64 + cont_bits c1) * 64 + cont_bits c2
              in if is_cont c1 \<and> is_cont c2 \<and> 0x800 \<le> cp \<and> \<not> (0xD800 \<le> cp \<and> cp < 0xE000)
                 then (cp, 2) else (0xFFFD, subpart3 a bs))
         | _ \<Rightarrow> (0xFFFD, subpart3 a bs))
      else if a div 8 = 30 then
        (case bs of
           c1 # c2 # c3 # _ \<Rightarrow>
             (let cp = (((a mod 8) * 64 + cont_bits c1) * 64 + cont_bits c2) * 64 + cont_bits c3
              in if is_cont c1 \<and> is_cont c2 \<and> is_cont c3 \<and> 0x10000 \<le> cp \<and> cp < 0x110000
                 then (cp, 3) else (0xFFFD, subpart4 a bs))
         | _ \<Rightarrow> (0xFFFD, subpart4 a bs))
      else (0xFFFD, 0))"

definition cp_units :: "nat \<Rightarrow> jsstring" where
  "cp_units c =
     (if c < 0x10000 then [of_nat c]
      else [of_nat (0xD800 + (c - 0x10000) div 1024), of_nat (0xDC00 + (c - 0x10000) mod 1024)])"

fun utf8_decode :: "byte list \<Rightarrow> jsstring" where
  "utf8_decode [] = []"
| "utf8_decode (b # bs) =
     (case utf8_first b bs of (c, k) \<Rightarrow> cp_units c @ utf8_decode (drop k bs))"

text \<open>A string in which every surrogate belongs to a pair.\<close>

fun well_formed :: "jsstring \<Rightarrow> bool" where
  "well_formed [] = True"
| "well_formed [u] = (\<not> is_high u \<and> \<not> is_low u)"
| "well_formed (u # l # us) =
     (if is_high u then is_low l \<and> well_formed us
      else \<not> is_low u \<and> well_formed (l # us))"

text \<open>A Unicode scalar value: a code point that is not a surrogate.\<close>

definition scalar :: "nat \<Rightarrow> bool" where
  "scalar c \<longleftrightarrow> c < 0x110000 \<and> \<not> (0xD800 \<le> c \<and> c < 0xE000)"

text \<open>\<open>readUtf8(buf, index)\<close> returns \<open>{length, value}\<close>, here \<open>(length, value)\<close>.\<close>

definition readUtf8 :: "buffer \<Rightarrow> nat \<Rightarrow> error + (nat \<times> jsstring)" where
  "readUtf8 buf index =
     bindE (readVarInt buf index) (\<lambda>(len_length, len_value).
       let val = slice buf (index + len_length) (index + len_length + len_value)
       in Inr (len_length + len_value, utf8_decode val))"

definition writeUtf8 :: "jsstring \<Rightarrow> error + buffer" where
  "writeUtf8 str =
     (let strLen = length (utf8_encode str) in
      bindE (writeVarInt (int strLen)) (\<lambda>num. Inr (num @ utf8_encode str)))"

section \<open>Packet schema\<close>

definition signature :: nat where
  "signature = 0xB3"

text \<open>The table \<open>statusFlags\<close>, in key order; \<open>None\<close> is JavaScript's \<open>null\<close>.\<close>

definition statusFlags :: "(nat \<times> jsstring option) list" where
  "statusFlags =
     [(0x0, None),
      (0x1, Some (js ''exists'')),
      (0x2, Some (js ''inprogress'')),
      (0x3, Some (js ''success'')),
      (0x4, Some (js ''uxsuccess'')),
      (0x5, Some (js ''skip'')),
      (0x6, Some (js ''fail'')),
      (0x7, Some (js ''xfail''))]"

text \<open>The value of a Record's \<open>status\<close> property.\<close>

datatype status_value = Undefined | Null | Str jsstring

definition table_value :: "jsstring option \<Rightarrow> status_value" where
  "table_value v = (case v of None \<Rightarrow> Null | Some s \<Rightarrow> Str s)"

text \<open>The object \<open>flagMasks\<close>, one constant for each property.\<close>

definition mask_testId :: nat where "mask_testId = 0x0800"
definition mask_routeCode :: nat where "mask_routeCode = 0x0400"
definition mask_timestamp :: nat where "mask_timestamp = 0x0200"
definition mask_runnable :: nat where "mask_runnable = 0x0100"
definition mask_tags :: nat where "mask_tags = 0x0080"
definition mask_mimeType :: nat where "mask_mimeType = 0x0020"
definition mask_eof :: nat where "mask_eof = 0x0010"
definition mask_fileContent :: nat where "mask_fileContent = 0x0040"

record packet_flags =
  flag_testId :: bool
  flag_routeCode :: bool
  flag_timestamp :: bool
  flag_runnable :: bool
  flag_tags :: bool
  flag_mimeType :: bool
  flag_eof :: bool
  flag_fileContent :: bool

text \<open>
  The \<open>_packet\<close> property. A field of a Record that is \<open>undefined\<close> is \<open>None\<close>; a flag that
  is absent from a caller's \<open>_packet.flags\<close> is falsy, here \<open>False\<close>.
\<close>

record packet_meta =
  packet_length :: nat
  packet_flags :: "packet_flags option"

text \<open>A \<open>Date\<close> is its epoch time in milliseconds.\<close>

record subunit_record =
  status :: status_value
  timestamp :: "int option"
  testId :: "jsstring option"
  tags :: "jsstring list option"
  mimeType :: "jsstring option"
  fileName :: "jsstring option"
  fileContent :: "buffer option"
  routeCode :: "jsstring option"
  packet :: "packet_meta option"

section \<open>The checksum\<close>

text \<open>
  \<open>crc32(buf)\<close> of the package buffer-crc32: the standard CRC-32 (reflected polynomial
  \<open>0xEDB88320\<close>), returned as a Buffer of four bytes, most significant first.
\<close>

definition crc_shift :: "32 word \<Rightarrow> 32 word" where
  "crc_shift c = (if bit c 0 then drop_bit 1 c XOR 0xEDB88320 else drop_bit 1 c)"

definition crc_update :: "32 word \<Rightarrow> byte \<Rightarrow> 32 word" where
  "crc_update c b = (crc_shift ^^ 8) (c XOR ucast b)"

definition crc32 :: "buffer \<Rightarrow> buffer" where
  "crc32 buf = be_bytes 4 (uint (NOT (foldl crc_update 0xFFFFFFFF buf)))"

section \<open>SubunitToObjectStream\<close>

text \<open>
  The decoder's state: the BufferList \<open>bl\<close> and the cursor \<open>offset\<close>, and whether the
  stream has a listener for \<open>'error'\<close> events (without one, \<open>emit('error', ...)\<close> throws).
\<close>

record decoder =
  bl :: buffer
  offset :: nat
  error_listener :: bool

text \<open>What the stream gives its consumer: a pushed Record, or an \<open>'error'\<close> event
  \<open>'Bad packet at offset n'\<close>.\<close>

datatype event = Data subunit_record | BadPacket nat

definition decode_flags :: "nat \<Rightarrow> packet_flags" where
  "decode_flags flags =
     \<lparr> flag_testId = (flags AND mask_testId \<noteq> 0),
       flag_routeCode = (flags AND mask_routeCode \<noteq> 0),
       flag_timestamp = (flags AND mask_timestamp \<noteq> 0),
       flag_runnable = (flags AND mask_runnable \<noteq> 0),
       flag_tags = (flags AND mask_tags \<noteq> 0),
       flag_mimeType = (flags AND mask_mimeType \<noteq> 0),
       flag_eof = (flags AND mask_eof \<noteq> 0),
       flag_fileContent = (flags AND mask_fileContent \<noteq> 0) \<rparr>"

definition decode_status :: "nat \<Rightarrow> status_value" where
  "decode_status flags =
     (case map_of statusFlags (flags AND 0x0007) of
        None \<Rightarrow> Undefined
      | Some v \<Rightarrow> table_value v)"

text \<open>
  The optional fields. Each reader takes the Record built so far and \<open>optionalsOffset\<close>,
  and returns both updated, or the exception of the read that failed.
\<close>

text \<open>
  The time value of \<open>new Date((seconds * 1000) + (nanos.value / 1000000))\<close>. JavaScript
  numbers are IEEE 754 doubles: the product is exact (it is below \<open>2 ^ 53\<close>), the quotient
  and the sum are each rounded to the nearest double, ties to the even significand, and
  \<open>Date\<close> drops the fraction of its argument. \<open>to_double\<close> is that rounding on the
  non-negative rationals of the normal range, where all the values of this computation
  lie: \<open>binade x\<close> is the exponent \<open>e\<close> with \<open>2 ^ e \<le> x < 2 ^ (e + 1)\<close>, and the doubles
  of that binade are the multiples of \<open>2 ^ (e - 52)\<close>.
\<close>

fun bit_len :: "nat \<Rightarrow> nat" where
  "bit_len n = (if n = 0 then 0 else Suc (bit_len (n div 2)))"

declare bit_len.simps [simp del]

definition binade :: "rat \<Rightarrow> int" where
  "binade x =
     (if 1 \<le> x then int (bit_len (nat \<lfloor>x\<rfloor>)) - 1
      else - int (bit_len (nat (\<lceil>1 / x\<rceil> - 1))))"

definition pow2 :: "int \<Rightarrow> rat" where
  "pow2 e = (if 0 \<le> e then 2 ^ nat e else 1 / 2 ^ nat (- e))"

definition round_even :: "rat \<Rightarrow> int" where
  "round_even x =
     (let f = \<lfloor>x\<rfloor>; d = x - of_int f
      in if d < 1 / 2 then f else if 1 / 2 < d then f + 1 else if even f then f else f + 1)"

definition to_double :: "rat \<Rightarrow> rat" where
  "to_double x =
     (if x = 0 then 0
      else let u = pow2 (binade x - 52) in of_int (round_even (x / u)) * u)"

definition date_value :: "nat \<Rightarrow> nat \<Rightarrow> int" where
  "date_value seconds nanos =
     \<lfloor>to_double (of_nat (seconds * 1000) + to_double (of_nat nanos / 1000000))\<rfloor>"

definition read_timestamp ::
    "buffer \<Rightarrow> subunit_record \<times> nat \<Rightarrow> error + (subunit_record \<times> nat)" where
  "read_timestamp buf = (\<lambda>(ret, off).
     bindE (readUInt32BE buf off) (\<lambda>seconds.
     bindE (readVarInt buf (off + 4)) (\<lambda>(nanos_length, nanos_value).
       Inr (ret\<lparr>timestamp := Some (date_value seconds nanos_value)\<rparr>,
            off + 4 + nanos_length))))"

definition read_testId ::
    "buffer \<Rightarrow> subunit_record \<times> nat \<Rightarrow> error + (subunit_record \<times> nat)" where
  "read_testId buf = (\<lambda>(ret, off).
     bindE (readUtf8 buf off) (\<lambda>(len, val).
       Inr (ret\<lparr>testId := Some val\<rparr>, off + len)))"

fun read_tag_list :: "buffer \<Rightarrow> nat \<Rightarrow> nat \<Rightarrow> error + (jsstring list \<times> nat)" where
  "read_tag_list buf off 0 = Inr ([], off)"
| "read_tag_list buf off (Suc n) =
     bindE (readUtf8 buf off) (\<lambda>(len, val).
     bindE (read_tag_list buf (off + len) n) (\<lambda>(vals, off').
       Inr (val # vals, off')))"

definition read_tags ::
    "buffer \<Rightarrow> subunit_record \<times> nat \<Rightarrow> error + (subunit_record \<times> nat)" where
  "read_tags buf = (\<lambda>(ret, off).
     bindE (readVarInt buf off) (\<lambda>(count_length, count_value).
     bindE (read_tag_list buf (off + count_length) count_value) (\<lambda>(vals, off').
       Inr (ret\<lparr>tags := Some vals\<rparr>, off'))))"

definition read_mimeType ::
    "buffer \<Rightarrow> subunit_record \<times> nat \<Rightarrow> error + (subunit_record \<times> nat)" where
  "read_mimeType buf = (\<lambda>(ret, off).
     bindE (readUtf8 buf off) (\<lambda>(len, val).
       Inr (ret\<lparr>mimeType := Some val\<rparr>, off + len)))"

definition read_fileContent ::
    "buffer \<Rightarrow> subunit_record \<times> nat \<Rightarrow> error + (subunit_record \<times> nat)" where
  "read_fileContent buf = (\<lambda>(ret, off).
     bindE (readUtf8 buf off) (\<lambda>(name_length, name_value).
     bindE (readVarInt buf (off + name_length)) (\<lambda>(fl_length, fl_value).
       let off' = off + name_length + fl_length
       in Inr (ret\<lparr>fileName := Some name_value,
                   fileContent := Some (slice buf off' (off' + fl_value))\<rparr>,
               off' + fl_value))))"

definition read_routeCode ::
    "buffer \<Rightarrow> subunit_record \<times> nat \<Rightarrow> error + (subunit_record \<times> nat)" where
  "read_routeCode buf = (\<lambda>(ret, off).
     bindE (readUtf8 buf off) (\<lambda>(len, val).
       Inr (ret\<lparr>routeCode := Some val\<rparr>, off + len)))"

definition when_flag ::
    "bool \<Rightarrow> ('a \<Rightarrow> error + 'a) \<Rightarrow> 'a \<Rightarrow> error + 'a" where
  "when_flag c f x = (if c then f x else Inr x)"

text \<open>
  The body of the \<open>while\<close> loop after the three header reads: the Record of the packet
  whose flag field is \<open>flags\<close> and whose length field is \<open>packetLength\<close>.
\<close>

definition read_record :: "buffer \<Rightarrow> nat \<Rightarrow> nat \<Rightarrow> nat \<times> nat \<Rightarrow> error + subunit_record" where
  "read_record buf off flags packetLength =
     (let ret = \<lparr> status = decode_status flags, timestamp = None, testId = None,
                  tags = None, mimeType = None, fileName = None, fileContent = None,
                  routeCode = None, packet = None \<rparr>;
          pflags = decode_flags flags;
          pkt = \<lparr> packet_length = snd packetLength, packet_flags = Some pflags \<rparr>;
          optionalsOffset = off + 3 + fst packetLength
      in bindE (when_flag (flag_timestamp pflags) (read_timestamp buf) (ret, optionalsOffset))
           (\<lambda>r1.
         bindE (when_flag (flag_testId pflags) (read_testId buf) r1) (\<lambda>r2.
         bindE (when_flag (flag_tags pflags) (read_tags buf) r2) (\<lambda>r3.
         bindE (when_flag (flag_mimeType pflags) (read_mimeType buf) r3) (\<lambda>r4.
         bindE (when_flag (flag_fileContent pflags) (read_fileContent buf) r4) (\<lambda>r5.
         bindE (when_flag (flag_routeCode pflags) (read_routeCode buf) r5) (\<lambda>(r6, _).
           Inr (r6\<lparr>packet := Some pkt\<rparr>))))))))"

text \<open>
  One run of the loop body. \<open>Wait\<close>: a RangeError was caught, the loop is left and the
  state is as before. \<open>Throw\<close>: another exception leaves \<open>_transform\<close>. \<open>Next\<close>: a Record
  was pushed and the cursor moved. Each carries the events emitted on the way.
\<close>

datatype step = Wait "event list" | Throw "event list" error | Next "event list" decoder

definition caught :: "event list \<Rightarrow> error \<Rightarrow> step" where
  "caught evs e = (if e = RangeError then Wait evs else Throw evs e)"

definition decode_step :: "decoder \<Rightarrow> step" where
  "decode_step d =
     (case readUInt8 (bl d) (offset d) of Inl e \<Rightarrow> caught [] e | Inr sig \<Rightarrow>
      case readUInt16BE (bl d) (offset d + 1) of Inl e \<Rightarrow> caught [] e | Inr flags \<Rightarrow>
      case readVarInt (bl d) (offset d + 3) of Inl e \<Rightarrow> caught [] e | Inr packetLength \<Rightarrow>
      if sig \<noteq> signature \<and> \<not> error_listener d then Throw [] UncaughtErrorEvent
      else
        let evs = (if sig \<noteq> signature then [BadPacket (offset d)] else [])
        in case read_record (bl d) (offset d) flags packetLength of
             Inl e \<Rightarrow> caught evs e
           | Inr ret \<Rightarrow> Next (evs @ [Data ret]) (d\<lparr>offset := offset d + snd packetLength\<rparr>))"

text \<open>
  The \<open>while\<close> loop. It need not end (a length field of 0 leaves the cursor where it
  is); \<open>None\<close> is the run that does not return. The result is the state, the events
  emitted, and the exception that left \<open>_transform\<close>, if one did.
\<close>

partial_function (option) decode_loop ::
    "decoder \<Rightarrow> event list \<Rightarrow> (decoder \<times> event list \<times> error option) option" where
  "decode_loop d evs =
     (if offset d < length (bl d) then
        (case decode_step d of
           Wait es \<Rightarrow> Some (d, evs @ es, None)
         | Throw es e \<Rightarrow> Some (d, evs @ es, Some e)
         | Next es d' \<Rightarrow> decode_loop d' (evs @ es))
      else Some (d, evs, None))"

declare decode_loop.simps [code]

text \<open>\<open>SubunitToObjectStream.prototype._transform\<close>, and a new stream.\<close>

definition SubunitToObjectStream_transform ::
    "decoder \<Rightarrow> buffer \<Rightarrow> (decoder \<times> event list \<times> error option) option" where
  "SubunitToObjectStream_transform d chunk = decode_loop (d\<lparr>bl := bl d @ chunk\<rparr>) []"

definition SubunitToObjectStream :: "bool \<Rightarrow> decoder" where
  "SubunitToObjectStream listening = \<lparr> bl = [], offset = 0, error_listener = listening \<rparr>"

section \<open>ObjectToSubunitStream\<close>

definition status_code :: "status_value \<Rightarrow> nat" where
  "status_code st =
     (case find (\<lambda>(flag, v). table_value v = st) statusFlags of
        None \<Rightarrow> 0
      | Some (flag, v) \<Rightarrow> flag)"

definition meta_flag :: "(packet_flags \<Rightarrow> bool) \<Rightarrow> subunit_record \<Rightarrow> bool" where
  "meta_flag sel chunk =
     (case packet chunk of
        None \<Rightarrow> False
      | Some p \<Rightarrow> (case packet_flags p of None \<Rightarrow> False | Some fl \<Rightarrow> sel fl))"

definition set_mask :: "bool \<Rightarrow> nat \<Rightarrow> nat \<Rightarrow> nat" where
  "set_mask c m flags = (if c then flags OR m else flags)"

text \<open>The flag field the encoder builds.\<close>

definition encode_flags :: "subunit_record \<Rightarrow> nat" where
  "encode_flags chunk =
     (let flags = 0x2000;
          flags = flags OR status_code (status chunk);
          flags = set_mask (meta_flag flag_runnable chunk) mask_runnable flags;
          flags = set_mask (meta_flag flag_eof chunk) mask_eof flags;
          flags = set_mask (timestamp chunk \<noteq> None) mask_timestamp flags;
          flags = set_mask (testId chunk \<noteq> None) mask_testId flags;
          flags = set_mask (tags chunk \<noteq> None) mask_tags flags;
          flags = set_mask (mimeType chunk \<noteq> None) mask_mimeType flags;
          flags = set_mask (fileName chunk \<noteq> None \<and> fileContent chunk \<noteq> None)
                    mask_fileContent flags;
          flags = set_mask (routeCode chunk \<noteq> None) mask_routeCode flags
      in flags)"

text \<open>The nanoseconds the encoder derives from a \<open>Date\<close>, and the timestamp field.\<close>

definition timestamp_seconds :: "int \<Rightarrow> int" where
  "timestamp_seconds millis = millis div 1000"

definition timestamp_nanos :: "int \<Rightarrow> int" where
  "timestamp_nanos millis = (millis - timestamp_seconds millis * 1000) * 1000000"

definition encode_timestamp :: "int \<Rightarrow> error + buffer" where
  "encode_timestamp millis =
     bindE (writeVarInt (timestamp_nanos millis)) (\<lambda>varNanos.
     bindE (writeUIntBE (timestamp_seconds millis) 4) (\<lambda>sec.
       Inr (sec @ varNanos)))"

fun encode_tag_list :: "jsstring list \<Rightarrow> error + buffer" where
  "encode_tag_list [] = Inr []"
| "encode_tag_list (tag # rest) =
     bindE (writeUtf8 tag) (\<lambda>b. bindE (encode_tag_list rest) (\<lambda>bs. Inr (b @ bs)))"

definition encode_tags :: "jsstring list \<Rightarrow> error + buffer" where
  "encode_tags ts =
     bindE (writeVarInt (int (length ts))) (\<lambda>n.
     bindE (encode_tag_list ts) (\<lambda>bs. Inr (n @ bs)))"

definition encode_file :: "jsstring \<Rightarrow> buffer \<Rightarrow> error + buffer" where
  "encode_file name content =
     bindE (writeUtf8 name) (\<lambda>n.
     bindE (writeVarInt (int (length content))) (\<lambda>l. Inr (n @ l @ content)))"

definition opt_field :: "'a option \<Rightarrow> ('a \<Rightarrow> error + buffer) \<Rightarrow> error + buffer" where
  "opt_field v f = (case v of None \<Rightarrow> Inr [] | Some x \<Rightarrow> f x)"

text \<open>The concatenation of \<open>body\<close>.\<close>

definition encode_body :: "subunit_record \<Rightarrow> error + buffer" where
  "encode_body chunk =
     bindE (opt_field (timestamp chunk) encode_timestamp) (\<lambda>b1.
     bindE (opt_field (testId chunk) writeUtf8) (\<lambda>b2.
     bindE (opt_field (tags chunk) encode_tags) (\<lambda>b3.
     bindE (opt_field (mimeType chunk) writeUtf8) (\<lambda>b4.
     bindE (case (fileName chunk, fileContent chunk) of
              (Some name, Some content) \<Rightarrow> encode_file name content
            | _ \<Rightarrow> Inr []) (\<lambda>b5.
     bindE (opt_field (routeCode chunk) writeUtf8) (\<lambda>b6.
       Inr (b1 @ b2 @ b3 @ b4 @ b5 @ b6)))))))"

definition lengthLength :: "nat \<Rightarrow> error + nat" where
  "lengthLength baseLength =
     (if baseLength \<le> 62 then Inr 1
      else if baseLength \<le> 16381 then Inr 2
      else if baseLength \<le> 4194300 then Inr 3
      else Inl LengthTooLong)"

text \<open>\<open>ObjectToSubunitStream.prototype._transform\<close>: the Buffer pushed for a Record.\<close>

definition ObjectToSubunitStream_transform :: "subunit_record \<Rightarrow> error + buffer" where
  "ObjectToSubunitStream_transform chunk =
     (let flags = encode_flags chunk in
      bindE (encode_body chunk) (\<lambda>bodyBuf.
        let baseLength = 3 + length bodyBuf + 4 in
        bindE (lengthLength baseLength) (\<lambda>ll.
        bindE (writeUIntBE (int signature) 1) (\<lambda>sigb.
        bindE (writeUIntBE (int flags) 2) (\<lambda>flagb.
        bindE (writeVarInt (int (baseLength + ll))) (\<lambda>len.
          let partial = sigb @ flagb @ len @ bodyBuf
          in Inr (partial @ crc32 partial)))))))"

section \<open>Example Records and packets\<close>

definition empty_record :: subunit_record where
  "empty_record =
     \<lparr> status = Undefined, timestamp = None, testId = None, tags = None, mimeType = None,
       fileName = None, fileContent = None, routeCode = None, packet = None \<rparr>"

text \<open>
  The Record \<open>{testId: 'T1'}\<close> and its packet: signature, flags \<open>0x2800\<close>, length 11,
  the test id, and the checksum of these seven bytes.
\<close>

definition t1_record :: subunit_record where
  "t1_record = empty_record\<lparr>testId := Some (js ''T1'')\<rparr>"

definition t1_partial :: buffer where
  "t1_partial = [0xB3, 0x28, 0x00, 0x0B, 0x02, 0x54, 0x31]"

definition t1_packet :: buffer where
  "t1_packet = t1_partial @ crc32 t1_partial"

text \<open>The packet of the Record \<open>{}\<close>: signature, flags \<open>0x2000\<close>, length 8, checksum.\<close>

definition empty_partial :: buffer where
  "empty_partial = [0xB3, 0x20, 0x00, 0x08]"

definition empty_packet :: buffer where
  "empty_packet = empty_partial @ crc32 empty_partial"

text \<open>
  The Record \<open>{testId: 'T1', status: 'success', timestamp: new Date(millis),
  tags: ['a', 'b']}\<close>.
\<close>

definition sample_record :: "int \<Rightarrow> subunit_record" where
  "sample_record millis =
     empty_record\<lparr>status := Str (js ''success''), timestamp := Some millis,
                  testId := Some (js ''T1''), tags := Some [js ''a'', js ''b'']\<rparr>"

text \<open>What the decoder sets \<open>_packet\<close> to for a packet of \<open>n\<close> bytes with the given flags.\<close>

definition packet_of :: "nat \<Rightarrow> packet_flags \<Rightarrow> packet_meta option" where
  "packet_of n fl = Some \<lparr> packet_length = n, packet_flags = Some fl \<rparr>"

definition no_flags :: packet_flags where
  "no_flags =
     \<lparr> flag_testId = False, flag_routeCode = False, flag_timestamp = False,
       flag_runnable = False, flag_tags = False, flag_mimeType = False, flag_eof = False,
       flag_fileContent = False \<rparr>"

text \<open>The Records the decoder pushes for these packets, and further examples.\<close>

definition t1_decoded :: subunit_record where
  "t1_decoded = t1_record\<lparr>status := Null,
                            packet := packet_of 11 (no_flags\<lparr>flag_testId := True\<rparr>)\<rparr>"

definition empty_decoded :: subunit_record where
  "empty_decoded = empty_record\<lparr>status := Null, packet := packet_of 8 no_flags\<rparr>"

definition fail_record :: subunit_record where
  "fail_record = empty_record\<lparr>status := Str (js ''fail'')\<rparr>"

definition fail_partial :: buffer where
  "fail_partial = [0xB3, 0x20, 0x06, 0x08]"

definition fail_packet :: buffer where
  "fail_packet = fail_partial @ crc32 fail_partial"

definition fail_decoded :: subunit_record where
  "fail_decoded = fail_record\<lparr>packet := packet_of 8 no_flags\<rparr>"

definition name_only_record :: subunit_record where
  "name_only_record = empty_record\<lparr>fileName := Some (js ''log'')\<rparr>"

text \<open>A euro sign and a grinning face: three code units, two code points, seven bytes.\<close>

definition euro_grin :: jsstring where
  "euro_grin = [0x20AC, 0xD83D, 0xDE00]"

section \<open>Lemmas: bytes and bit operations\<close>

lemma be_value_snoc: "be_value (bs @ [b]) = be_value bs * 256 + unat b"
  by (simp add: be_value_def)

lemma be_value_Nil: "be_value [] = 0"
  by (simp add: be_value_def)

lemma length_be_bytes: "length (be_bytes n v) = n"
  by (induction n arbitrary: v) simp_all

lemma unat_byte_of_nat: "unat (word_of_int (int k) :: byte) = k mod 256"
  by (simp add: unat_of_nat)

lemma be_value_be_bytes: "k < 256 ^ n \<Longrightarrow> be_value (be_bytes n (int k)) = k"
proof (induction n arbitrary: k)
  case 0
  then show ?case by (simp add: be_value_Nil)
next
  case (Suc n)
  have "k div 256 < 256 ^ n" using Suc.prems by (simp add: less_mult_imp_div_less mult.commute)
  then have "be_value (be_bytes n (int (k div 256))) = k div 256" by (rule Suc.IH)
  then show ?case by (simp add: be_value_snoc unat_of_nat zdiv_int)
qed

lemma and_3F: "(x::nat) AND 0x3F = x mod 64"
proof -
  have m: "(0x3F::nat) = mask 6" by (simp add: mask_eq_exp_minus_1)
  show ?thesis unfolding m by (simp add: take_bit_eq_mask [symmetric] take_bit_eq_mod)
qed

lemma and_C0: "(x::nat) < 256 \<Longrightarrow> x AND 0xC0 = 64 * (x div 64)"
proof -
  assume "x < 256"
  have m: "(0xC0::nat) = push_bit 6 (mask 2)" by (simp add: mask_eq_exp_minus_1 push_bit_eq_mult)
  have "x AND push_bit 6 (mask 2) = push_bit 6 (take_bit 2 (drop_bit 6 x))"
    by (rule bit_eqI) (auto simp add: bit_simps)
  also have "\<dots> = 64 * (x div 64)" using \<open>x < 256\<close>
    by (simp add: push_bit_eq_mult take_bit_eq_mod drop_bit_eq_div)
  finally show ?thesis unfolding m .
qed

lemma low_bits_clear: "(b::nat) < 2 ^ n \<Longrightarrow> n \<le> k \<Longrightarrow> \<not> bit b k"
proof -
  assume b: "b < 2 ^ n" and "n \<le> k"
  hence "2 ^ n \<le> (2::nat) ^ k" by (simp add: power_increasing)
  with b have "b < 2 ^ k" by linarith
  thus "\<not> bit b k" by (simp add: bit_iff_odd)
qed

lemma or_disj: "(b::nat) < 2 ^ n \<Longrightarrow> push_bit n a OR b = a * 2 ^ n + b"
proof -
  assume b: "b < 2 ^ n"
  have "push_bit n a + b = push_bit n a OR b"
  proof (rule disjunctive_add)
    fix k
    show "\<not> bit (push_bit n a) k \<or> \<not> bit b k"
      using low_bits_clear [OF b, of k] by (cases "k < n") (simp_all add: bit_push_bit_iff)
  qed
  thus ?thesis by (simp add: push_bit_eq_mult)
qed

lemma or_tag: "b < 2 ^ n \<Longrightarrow> int b OR int (c * 2 ^ n) = int (b + c * 2 ^ n)"
proof -
  assume b: "b < 2 ^ n"
  have "push_bit n c OR b = c * 2 ^ n + b" using b by (rule or_disj)
  hence "int (push_bit n c OR b) = int (c * 2 ^ n + b)" by simp
  thus ?thesis by (simp add: of_nat_or_eq push_bit_eq_mult or.commute add.commute)
qed

lemma div_tag: "0 < B \<Longrightarrow> (n + c * B) div B = c + n div (B::nat)"
  by simp
lemma mod_tag: "(n + c * B) mod B = n mod (B::nat)"
  by simp
lemma hi_byte_2: "n < 16384 \<Longrightarrow> (n + 16384) div 256 mod 256 = 64 + n div (256::nat)"
  using div_tag [of 256 n 64] by simp
lemma lo_byte_2: "(n + 16384) mod 256 = n mod (256::nat)"
  using mod_tag [of n 64 256] by simp
lemma hi_byte_3: "n < 4194304 \<Longrightarrow> (n + 8388608) div 256 div 256 mod 256 = 128 + n div (65536::nat)"
  using div_tag [of 65536 n 128] by (simp add: div_mult2_eq [symmetric])
lemma mid_byte_3: "(n + 8388608) div 256 mod 256 = n div 256 mod (256::nat)"
  using div_tag [of 256 n 32768] mod_tag [of "n div 256" 128 256] by (simp add: add.commute)
lemma join_bytes_2: "n div 256 mod 256 * 256 + n mod 256 = n mod (65536::nat)"
  using mod_mult2_eq [of n 256 256] by simp
lemma split_65536: "n div 65536 * 65536 + n mod 65536 = (n::nat)"
  by simp
lemma hi_byte_4: "n < 1073741824 \<Longrightarrow> (n + 3221225472) div 256 div 256 div 256 mod 256 = 192 + n div (16777216::nat)"
  using div_tag [of 16777216 n 192] by (simp add: div_mult2_eq [symmetric])
lemma byte2_4: "(n + 3221225472) div 256 div 256 mod 256 = n div 65536 mod (256::nat)"
  using div_tag [of 65536 n 49152] mod_tag [of "n div 65536" 192 256] by (simp add: add.commute div_mult2_eq [symmetric])
lemma byte3_4: "(n + 3221225472) div 256 mod 256 = n div 256 mod (256::nat)"
  using div_tag [of 256 n 12582912] mod_tag [of "n div 256" 49152 256] by (simp add: add.commute)
lemma lo_byte_4: "(n + 3221225472) mod 256 = n mod (256::nat)"
  using mod_tag [of n 12582912 256] by simp
lemma join_bytes_3: "(n div 65536 mod 256 * 256 + n div 256 mod 256) * 256 + n mod 256 = n mod (16777216::nat)"
  using mod_mult2_eq [of n 256 65536] mod_mult2_eq [of "n div 256" 256 256] by (simp add: div_mult2_eq [symmetric] algebra_simps)

lemma unat_byte: "unat (word_of_nat k :: byte) = k mod 256"
  by (simp add: unat_of_nat)

lemma be_bytes_Suc_nat: "be_bytes (Suc n) (int k) = be_bytes n (int (k div 256)) @ [word_of_nat k]"
  by (simp add: zdiv_int)

lemma be_bytes_2: "be_bytes 2 (int k) = [word_of_nat (k div 256), word_of_nat k]"
  by (simp only: numeral_2_eq_2 be_bytes_Suc_nat be_bytes.simps(1) append.simps)

lemma be_bytes_3: "be_bytes 3 (int k) = [word_of_nat (k div 256 div 256), word_of_nat (k div 256), word_of_nat k]"
  by (simp only: numeral_3_eq_3 be_bytes_Suc_nat be_bytes.simps(1) append.simps)

lemma be_bytes_4: "be_bytes 4 (int k) =
   [word_of_nat (k div 256 div 256 div 256), word_of_nat (k div 256 div 256), word_of_nat (k div 256), word_of_nat k]"
proof -
  have "(4::nat) = Suc (Suc (Suc (Suc 0)))" by simp
  then show ?thesis 
  by (simp only: be_bytes_Suc_nat be_bytes.simps(1) append.simps)
qed

lemma writeVarInt_1: "n < 64 \<Longrightarrow> writeVarInt (int n) = Inr [word_of_nat n]"
  by (simp add: writeVarInt_def writeUIntBE_def numeral_eq_Suc)

lemma writeVarInt_2: "64 \<le> n \<Longrightarrow> n < 16384 \<Longrightarrow> writeVarInt (int n) = Inr (be_bytes 2 (int (n + 16384)))"
proof -
  assume a: "64 \<le> n" "n < 16384"
  have "int n OR int (1 * 2 ^ 14) = int (n + 1 * 2 ^ 14)" using a by (intro or_tag) simp
  hence o: "int n OR 0x4000 = int n + 16384" by simp
  show ?thesis using a by (simp add: writeVarInt_def writeUIntBE_def o take_bit_eq_mod)
qed

lemma writeVarInt_3: "16384 \<le> n \<Longrightarrow> n < 4194304 \<Longrightarrow> writeVarInt (int n) = Inr (be_bytes 3 (int (n + 8388608)))"
proof -
  assume a: "16384 \<le> n" "n < 4194304"
  have "int n OR int (1 * 2 ^ 23) = int (n + 1 * 2 ^ 23)" using a by (intro or_tag) simp
  hence o: "int n OR 0x800000 = int n + 8388608" by simp
  show ?thesis using a by (simp add: writeVarInt_def writeUIntBE_def o take_bit_eq_mod)
qed

lemma writeVarInt_4: "4194304 \<le> n \<Longrightarrow> n < 1073741824 \<Longrightarrow> writeVarInt (int n) = Inr (be_bytes 4 (int (n + 3221225472)))"
proof -
  assume a: "4194304 \<le> n" "n < 1073741824"
  have "int n OR int (3 * 2 ^ 30) = int (n + 3 * 2 ^ 30)" using a by (intro or_tag) simp
  hence o: "int n OR 0xC0000000 = int n + 3221225472" by simp
  show ?thesis using a by (simp add: writeVarInt_def writeUIntBE_def o take_bit_eq_mod)
qed

lemma readVarInt_shift: "readVarInt (pre @ xs) (length pre) = readVarInt xs 0"
  by (simp add: readVarInt_def slice_def)

lemma be_value_1: "be_value [a] = unat a"
  by (simp add: be_value_def)

lemma be_value_2: "be_value [a, b] = unat a * 256 + unat b"
  by (simp add: be_value_def)

lemma be_value_3: "be_value [a, b, c] = (unat a * 256 + unat b) * 256 + unat c"
  by (simp add: be_value_def)

lemma readVarInt_1: "n < 64 \<Longrightarrow> readVarInt (word_of_nat n # post) 0 = Inr (1, n)"
  by (simp add: readVarInt_def slice_def readUInt8_def readUIntBE_def bindE_def be_value_1
      unat_of_nat and_3F and_C0 Let_def)

lemma readVarInt_2:
  assumes "64 \<le> n" "n < 16384"
  shows "readVarInt (be_bytes 2 (int (n + 16384)) @ post) 0 = Inr (2, n)"
proof -
  define b0 :: byte where "b0 = word_of_nat ((n + 16384) div 256)"
  define b1 :: byte where "b1 = word_of_nat (n + 16384)"
  have bs: "be_bytes 2 (int (n + 16384)) = [b0, b1]"
    by (simp only: be_bytes_2 b0_def b1_def)
  have u0: "unat b0 = 64 + n div 256" using assms by (simp only: b0_def unat_byte hi_byte_2)
  have u1: "unat b1 = n mod 256" by (simp only: b1_def unat_byte lo_byte_2)
  have d: "n div 256 < 64" using assms by (simp add: div_less_iff_less_mult)
  have t: "unat b0 AND 0xC0 = 0x40"
    using d div_tag [of 64 "n div 256" 1] by (subst and_C0) (simp_all add: u0 add.commute)
  have v: "unat b0 AND 0x3F = n div 256"
    using d mod_tag [of "n div 256" 1 64] by (simp add: and_3F u0 add.commute)
  have r: "push_bit 8 (n div 256) OR be_value [b1] = n"
    unfolding be_value_1 u1 by (subst or_disj) simp_all
  show ?thesis unfolding bs
    by (simp add: readVarInt_def slice_def readUInt8_def readUIntBE_def bindE_def be_value_1 [of b0]
      Let_def t v r)
qed

lemma readVarInt_3:
  assumes "16384 \<le> n" "n < 4194304"
  shows "readVarInt (be_bytes 3 (int (n + 8388608)) @ post) 0 = Inr (3, n)"
proof -
  define b0 :: byte where "b0 = word_of_nat ((n + 8388608) div 256 div 256)"
  define b1 :: byte where "b1 = word_of_nat ((n + 8388608) div 256)"
  define b2 :: byte where "b2 = word_of_nat (n + 8388608)"
  have bs: "be_bytes 3 (int (n + 8388608)) = [b0, b1, b2]"
    by (simp only: be_bytes_3 b0_def b1_def b2_def)
  have u0: "unat b0 = 128 + n div 65536" using assms by (simp only: b0_def unat_byte hi_byte_3)
  have u1: "unat b1 = n div 256 mod 256" by (simp only: b1_def unat_byte mid_byte_3)
  have u2: "unat b2 = n mod 256"
    using mod_tag [of n 32768 256] by (simp only: b2_def unat_byte) simp
  have d: "n div 65536 < 64" using assms by (simp add: div_less_iff_less_mult)
  have t: "unat b0 AND 0xC0 = 0x80"
    using d div_tag [of 64 "n div 65536" 2] by (subst and_C0) (simp_all add: u0 add.commute)
  have v: "unat b0 AND 0x3F = n div 65536"
    using d mod_tag [of "n div 65536" 2 64] by (simp add: and_3F u0 add.commute)
  have r: "push_bit 16 (n div 65536) OR be_value [b1, b2] = n"
    unfolding be_value_2 u1 u2 join_bytes_2 by (subst or_disj) simp_all
  show ?thesis unfolding bs
    by (simp add: readVarInt_def slice_def readUInt8_def readUIntBE_def bindE_def be_value_1 [of b0]
      Let_def t v r)
qed

lemma readVarInt_4:
  assumes "4194304 \<le> n" "n < 1073741824"
  shows "readVarInt (be_bytes 4 (int (n + 3221225472)) @ post) 0 = Inr (4, n)"
proof -
  define b0 :: byte where "b0 = word_of_nat ((n + 3221225472) div 256 div 256 div 256)"
  define b1 :: byte where "b1 = word_of_nat ((n + 3221225472) div 256 div 256)"
  define b2 :: byte where "b2 = word_of_nat ((n + 3221225472) div 256)"
  define b3 :: byte where "b3 = word_of_nat (n + 3221225472)"
  have bs: "be_bytes 4 (int (n + 3221225472)) = [b0, b1, b2, b3]"
    by (simp only: be_bytes_4 b0_def b1_def b2_def b3_def)
  have u0: "unat b0 = 192 + n div 16777216" using assms by (simp only: b0_def unat_byte hi_byte_4)
  have u1: "unat b1 = n div 65536 mod 256" by (simp only: b1_def unat_byte byte2_4)
  have u2: "unat b2 = n div 256 mod 256" by (simp only: b2_def unat_byte byte3_4)
  have u3: "unat b3 = n mod 256" by (simp only: b3_def unat_byte lo_byte_4)
  have d: "n div 16777216 < 64" using assms by (simp add: div_less_iff_less_mult)
  have t: "unat b0 AND 0xC0 = 0xC0"
    using d div_tag [of 64 "n div 16777216" 3] by (subst and_C0) (simp_all add: u0 add.commute)
  have v: "unat b0 AND 0x3F = n div 16777216"
    using d mod_tag [of "n div 16777216" 3 64] by (simp add: and_3F u0 add.commute)
  have r: "push_bit 24 (n div 16777216) OR be_value [b1, b2, b3] = n"
    unfolding be_value_3 u1 u2 u3 join_bytes_3 by (subst or_disj) simp_all
  show ?thesis unfolding bs
    by (simp add: readVarInt_def slice_def readUInt8_def readUIntBE_def bindE_def be_value_1 [of b0]
      Let_def t v r)
qed

lemma varint_ctx:
  assumes "n < 1073741824"
  shows "\<exists>bs. writeVarInt (int n) = Inr bs
            \<and> length bs = (if n < 64 then 1 else if n < 16384 then 2 else if n < 4194304 then 3 else 4)
            \<and> (\<forall>pre post. readVarInt (pre @ bs @ post) (length pre) = Inr (length bs, n))"
proof -
  consider (a) "n < 64" | (b) "64 \<le> n" "n < 16384" | (c) "16384 \<le> n" "n < 4194304"
    | (d) "4194304 \<le> n" by linarith
  then show ?thesis
  proof cases
    case a
    have "writeVarInt (int n) = Inr [word_of_nat n]" using a by (rule writeVarInt_1)
    moreover have "length [word_of_nat n :: byte] = 1" by simp
    moreover have "\<forall>pre post. readVarInt (pre @ [word_of_nat n] @ post) (length pre) = Inr (1, n)"
      using readVarInt_1 [OF a] by (simp add: readVarInt_shift)
    ultimately show ?thesis using a by (intro exI [of _ "[word_of_nat n]"]) simp
  next
    case b
    let ?bs = "be_bytes 2 (int (n + 16384))"
    have "writeVarInt (int n) = Inr ?bs" using b by (rule writeVarInt_2)
    moreover have "length ?bs = 2" by (rule length_be_bytes)
    moreover have "\<forall>pre post. readVarInt (pre @ ?bs @ post) (length pre) = Inr (2, n)"
      using readVarInt_2 [OF b] by (simp only: readVarInt_shift) simp
    ultimately show ?thesis using b by (intro exI [of _ ?bs]) (simp only:, simp)
  next
    case c
    let ?bs = "be_bytes 3 (int (n + 8388608))"
    have "writeVarInt (int n) = Inr ?bs" using c by (rule writeVarInt_3)
    moreover have "length ?bs = 3" by (rule length_be_bytes)
    moreover have "\<forall>pre post. readVarInt (pre @ ?bs @ post) (length pre) = Inr (3, n)"
      using readVarInt_3 [OF c] by (simp only: readVarInt_shift) simp
    ultimately show ?thesis using c by (intro exI [of _ ?bs]) (simp only:, simp)
  next
    case d
    let ?bs = "be_bytes 4 (int (n + 3221225472))"
    have "writeVarInt (int n) = Inr ?bs" using d assms by (rule writeVarInt_4)
    moreover have "length ?bs = 4" by (rule length_be_bytes)
    moreover have "\<forall>pre post. readVarInt (pre @ ?bs @ post) (length pre) = Inr (4, n)"
      using readVarInt_4 [OF d assms] by (simp only: readVarInt_shift) simp
    ultimately show ?thesis using d by (intro exI [of _ ?bs]) (simp only:, simp)
  qed
qed

text \<open>
  Claim C5. For every integer \<open>n\<close> with \<open>0 \<le> n \<le> 1073741823\<close>, \<open>writeVarInt\<close> returns bytes
  from which \<open>readVarInt\<close> reads \<open>n\<close> back, together with their number, which is 1 for
  \<open>n \<le> 63\<close>, 2 for \<open>n \<le> 16383\<close>, 3 for \<open>n \<le> 4194303\<close> and 4 otherwise. \<open>writeVarInt\<close>
  throws for every negative input and for every input from 1073741824 on.
\<close>

theorem varint_round_trip:
  "(0 \<le> n \<and> n \<le> 1073741823 \<longrightarrow>
      (\<exists>bs. writeVarInt n = Inr bs \<and> readVarInt bs 0 = Inr (length bs, nat n)
          \<and> length bs = (if n \<le> 63 then 1 else if n \<le> 16383 then 2
                          else if n \<le> 4194303 then 3 else 4)))
   \<and> (n < 0 \<longrightarrow> writeVarInt n = Inl ValueNegative)
   \<and> (1073741824 \<le> n \<longrightarrow> writeVarInt n = Inl ValueTooLarge)"
proof (intro conjI impI)
  assume a: "0 \<le> n \<and> n \<le> 1073741823"
  define k where "k = nat n"
  have k: "n = int k" "k < 1073741824" using a by (simp add: k_def, unfold k_def, linarith)
  from varint_ctx [OF k(2)] obtain bs where bs: "writeVarInt (int k) = Inr bs"
    "length bs = (if k < 64 then 1 else if k < 16384 then 2 else if k < 4194304 then 3 else 4)"
    "\<forall>pre post. readVarInt (pre @ bs @ post) (length pre) = Inr (length bs, k)" by blast
  from bs(3) have "readVarInt ([] @ bs @ []) (length ([]::buffer)) = Inr (length bs, k)" by blast
  hence r: "readVarInt bs 0 = Inr (length bs, k)" by simp
  have l: "length bs = (if n \<le> 63 then 1 else if n \<le> 16383 then 2
                          else if n \<le> 4194303 then 3 else 4)"
    using bs(2) k(1) by auto
  show "\<exists>bs. writeVarInt n = Inr bs \<and> readVarInt bs 0 = Inr (length bs, nat n)
          \<and> length bs = (if n \<le> 63 then 1 else if n \<le> 16383 then 2
                          else if n \<le> 4194303 then 3 else 4)"
    using bs(1) r l k(1) by auto
next
  assume "n < 0" then show "writeVarInt n = Inl ValueNegative" by (simp add: writeVarInt_def)
next
  assume "1073741824 \<le> n" then show "writeVarInt n = Inl ValueTooLarge" by (simp add: writeVarInt_def)
qed

theorem varint_round_trip_witness:
  "(\<exists>bs. writeVarInt 16384 = Inr bs \<and> readVarInt bs 0 = Inr (length bs, 16384) \<and> length bs = 3)
   \<and> writeVarInt (- 1) = Inl ValueNegative
   \<and> writeVarInt 1073741824 = Inl ValueTooLarge"
  using varint_round_trip [of 16384] varint_round_trip [of "- 1"]
    varint_round_trip [of 1073741824] by simp

section \<open>The timestamp's nanoseconds\<close>

lemma timestamp_nanos_mod: "timestamp_nanos millis = (millis mod 1000) * 1000000"
proof -
  have "millis - millis div 1000 * 1000 = millis mod 1000"
    by (simp add: minus_div_mult_eq_mod)
  then show ?thesis by (simp add: timestamp_nanos_def timestamp_seconds_def)
qed

lemma timestamp_nanos_range: "0 \<le> timestamp_nanos millis \<and> timestamp_nanos millis \<le> 999000000"
proof -
  have "0 \<le> millis mod 1000" "millis mod 1000 \<le> 999"
    using pos_mod_bound [of 1000 millis] by simp_all
  then show ?thesis unfolding timestamp_nanos_mod by simp
qed

lemma writeVarInt_nanos: "\<exists>bs. writeVarInt (timestamp_nanos millis) = Inr bs"
proof -
  define k where "k = nat (timestamp_nanos millis)"
  have k: "timestamp_nanos millis = int k" "k < 1073741824"
    using timestamp_nanos_range [of millis] by (simp add: k_def, unfold k_def, linarith)
  from varint_ctx [OF k(2)] show ?thesis unfolding k(1) by blast
qed

text \<open>
  Claim C10. For a timestamp with non-negative epoch milliseconds, the nanoseconds the
  encoder derives are \<open>(millis mod 1000) * 1000000\<close>, a multiple of 1000000 between 0 and
  999000000; they are below \<open>2 ^ 30\<close>, and \<open>writeVarInt\<close> returns bytes for them.
\<close>

theorem timestamp_nanos_encodable:
  "0 \<le> millis \<Longrightarrow>
     timestamp_nanos millis = (millis mod 1000) * 1000000
     \<and> 1000000 dvd timestamp_nanos millis
     \<and> 0 \<le> timestamp_nanos millis \<and> timestamp_nanos millis \<le> 999000000
     \<and> timestamp_nanos millis < 1073741824
     \<and> (\<exists>bs. writeVarInt (timestamp_nanos millis) = Inr bs)"
  using timestamp_nanos_range [of millis] writeVarInt_nanos [of millis]
  by (simp add: timestamp_nanos_mod)

theorem timestamp_nanos_encodable_witness:
  "(0::int) \<le> 1478000000123
     \<and> timestamp_nanos 1478000000123 = 123000000
     \<and> (\<exists>bs. writeVarInt (timestamp_nanos 1478000000123) = Inr bs)"
proof -
  have h: "(0::int) \<le> 1478000000123" by simp
  have "timestamp_nanos 1478000000123 = 1478000000123 mod 1000 * 1000000"
    and "\<exists>bs. writeVarInt (timestamp_nanos 1478000000123) = Inr bs"
    using timestamp_nanos_encodable [OF h] by blast+
  then show ?thesis by simp
qed

section \<open>Lemmas: the flag field\<close>

lemma and_or_nat: "((a::nat) OR b) AND c = (a AND c) OR (b AND c)"
  by (rule bit_eqI) (auto simp add: bit_and_iff bit_or_iff)

lemma set_mask_and: "set_mask c m flags AND k = (flags AND k) OR (if c then m AND k else 0)"
  by (simp add: set_mask_def and_or_nat)

lemma status_code_cases:
  "status_code st \<in> {0, 1, 2, 3, 4, 5, 6, 7}"
  by (simp add: status_code_def statusFlags_def)

lemma encode_flags_and:
  "encode_flags chunk AND k =
     (0x2000 AND k) OR (status_code (status chunk) AND k)
     OR (if meta_flag flag_runnable chunk then mask_runnable AND k else 0)
     OR (if meta_flag flag_eof chunk then mask_eof AND k else 0)
     OR (if timestamp chunk \<noteq> None then mask_timestamp AND k else 0)
     OR (if testId chunk \<noteq> None then mask_testId AND k else 0)
     OR (if tags chunk \<noteq> None then mask_tags AND k else 0)
     OR (if mimeType chunk \<noteq> None then mask_mimeType AND k else 0)
     OR (if fileName chunk \<noteq> None \<and> fileContent chunk \<noteq> None then mask_fileContent AND k else 0)
     OR (if routeCode chunk \<noteq> None then mask_routeCode AND k else 0)"
  unfolding encode_flags_def Let_def set_mask_and and_or_nat by (simp only: or.assoc)

lemma status_code_fail: "status_code (Str (js ''fail'')) = 6"
  by (simp add: status_code_def statusFlags_def table_value_def js_def)

lemma status_code_values:
  "status_code Null = 0"
  "status_code (Str (js ''exists'')) = 1"
  "status_code (Str (js ''inprogress'')) = 2"
  "status_code (Str (js ''success'')) = 3"
  "status_code (Str (js ''uxsuccess'')) = 4"
  "status_code (Str (js ''skip'')) = 5"
  "status_code (Str (js ''fail'')) = 6"
  "status_code (Str (js ''xfail'')) = 7"
  by (simp_all add: status_code_def statusFlags_def table_value_def js_def)

lemma statusFlags_cases:
  assumes "(code, name) \<in> set statusFlags"
  obtains "code = 0" "name = None" | "code = 1" "name = Some (js ''exists'')"
    | "code = 2" "name = Some (js ''inprogress'')" | "code = 3" "name = Some (js ''success'')"
    | "code = 4" "name = Some (js ''uxsuccess'')" | "code = 5" "name = Some (js ''skip'')"
    | "code = 6" "name = Some (js ''fail'')" | "code = 7" "name = Some (js ''xfail'')"
  using assms unfolding statusFlags_def
  by (simp only: list.set insert_iff empty_iff prod.inject) blast

lemma status_code_table:
  assumes "(code, name) \<in> set statusFlags"
  shows "status_code (table_value name) = code"
  using assms
  by (rule statusFlags_cases) (simp_all only: table_value_def option.case status_code_values)

lemma status_code_unrecognized:
  "\<forall>(code, name) \<in> set statusFlags. table_value name \<noteq> st \<Longrightarrow> status_code st = 0"
  by (simp add: status_code_def statusFlags_def)

lemma status_code_Undefined: "status_code Undefined = 0"
  by (simp add: status_code_def statusFlags_def table_value_def)

lemmas mask_defs = mask_runnable_def mask_eof_def mask_timestamp_def mask_testId_def
  mask_tags_def mask_mimeType_def mask_fileContent_def mask_routeCode_def

lemma status_code_and_7: "status_code st AND 7 = status_code st"
  using status_code_cases [of st] by auto

lemma encode_flags_status: "encode_flags chunk AND 7 = status_code (status chunk)"
proof -
  have "encode_flags chunk AND 7 = status_code (status chunk) AND 7"
    by (simp add: encode_flags_and mask_defs)
  then show ?thesis by (simp only: status_code_and_7)
qed

lemma decode_status_fail: "flags AND 7 = 6 \<Longrightarrow> decode_status flags = Str (js ''fail'')"
  by (simp add: decode_status_def statusFlags_def table_value_def)

lemma decode_status_none: "flags AND 7 = 0 \<Longrightarrow> decode_status flags = Null"
  by (simp add: decode_status_def statusFlags_def table_value_def)

section \<open>Lemmas: the decoder\<close>

lemma bindE_Inr: "bindE m f = Inr y \<Longrightarrow> \<exists>x. m = Inr x \<and> f x = Inr y"
  by (cases m) (simp_all add: bindE_def)

lemma bindE_Inr_simp [simp]: "bindE (Inr x) f = f x"
  by (simp add: bindE_def)

lemma bindE_Inl_simp [simp]: "bindE (Inl e) f = Inl e"
  by (simp add: bindE_def)

lemma read_timestamp_Inr:
  "read_timestamp buf (ret, off) = Inr (ret', off') \<Longrightarrow> \<exists>t. ret' = ret\<lparr>timestamp := Some t\<rparr>"
  by (auto simp add: read_timestamp_def dest!: bindE_Inr)

lemma read_testId_Inr:
  "read_testId buf (ret, off) = Inr (ret', off') \<Longrightarrow> \<exists>v. ret' = ret\<lparr>testId := Some v\<rparr>"
  by (auto simp add: read_testId_def dest!: bindE_Inr)

lemma read_tags_Inr:
  "read_tags buf (ret, off) = Inr (ret', off') \<Longrightarrow> \<exists>v. ret' = ret\<lparr>tags := Some v\<rparr>"
  by (auto simp add: read_tags_def dest!: bindE_Inr)

lemma read_mimeType_Inr:
  "read_mimeType buf (ret, off) = Inr (ret', off') \<Longrightarrow> \<exists>v. ret' = ret\<lparr>mimeType := Some v\<rparr>"
  by (auto simp add: read_mimeType_def dest!: bindE_Inr)

lemma read_fileContent_Inr:
  "read_fileContent buf (ret, off) = Inr (ret', off') \<Longrightarrow>
     \<exists>n c. ret' = ret\<lparr>fileName := Some n, fileContent := Some c\<rparr>"
  by (auto simp add: read_fileContent_def Let_def dest!: bindE_Inr)

lemma read_routeCode_Inr:
  "read_routeCode buf (ret, off) = Inr (ret', off') \<Longrightarrow> \<exists>v. ret' = ret\<lparr>routeCode := Some v\<rparr>"
  by (auto simp add: read_routeCode_def dest!: bindE_Inr)

text \<open>What the fields of a decoded Record are, from the flag field.\<close>

lemma read_record_Inr:
  assumes "read_record buf off flags pl = Inr r"
  shows "status r = decode_status flags"
    and "timestamp r \<noteq> None \<longleftrightarrow> flag_timestamp (decode_flags flags)"
    and "testId r \<noteq> None \<longleftrightarrow> flag_testId (decode_flags flags)"
    and "tags r \<noteq> None \<longleftrightarrow> flag_tags (decode_flags flags)"
    and "mimeType r \<noteq> None \<longleftrightarrow> flag_mimeType (decode_flags flags)"
    and "fileName r \<noteq> None \<longleftrightarrow> flag_fileContent (decode_flags flags)"
    and "fileContent r \<noteq> None \<longleftrightarrow> flag_fileContent (decode_flags flags)"
    and "routeCode r \<noteq> None \<longleftrightarrow> flag_routeCode (decode_flags flags)"
    and "packet r = Some \<lparr> packet_length = snd pl, packet_flags = Some (decode_flags flags) \<rparr>"
proof -
  define fl where "fl = decode_flags flags"
  define r0 where "r0 = \<lparr> status = decode_status flags, timestamp = None, testId = None,
                  tags = None, mimeType = None, fileName = None, fileContent = None,
                  routeCode = None, packet = None \<rparr>"
  from assms obtain r1 o1 r2 o2 r3 o3 r4 o4 r5 o5 r6 o6 where
    s1: "when_flag (flag_timestamp fl) (read_timestamp buf) (r0, off + 3 + fst pl) = Inr (r1, o1)" and
    s2: "when_flag (flag_testId fl) (read_testId buf) (r1, o1) = Inr (r2, o2)" and
    s3: "when_flag (flag_tags fl) (read_tags buf) (r2, o2) = Inr (r3, o3)" and
    s4: "when_flag (flag_mimeType fl) (read_mimeType buf) (r3, o3) = Inr (r4, o4)" and
    s5: "when_flag (flag_fileContent fl) (read_fileContent buf) (r4, o4) = Inr (r5, o5)" and
    s6: "when_flag (flag_routeCode fl) (read_routeCode buf) (r5, o5) = Inr (r6, o6)" and
    r: "r = r6\<lparr>packet := Some \<lparr> packet_length = snd pl, packet_flags = Some fl \<rparr>\<rparr>"
    unfolding read_record_def Let_def fl_def [symmetric] r0_def [symmetric]
    by (fastforce dest!: bindE_Inr)
  from s1 obtain t where e1: "r1 = (if flag_timestamp fl then r0\<lparr>timestamp := Some t\<rparr> else r0)"
    by (cases "flag_timestamp fl") (auto simp add: when_flag_def dest!: read_timestamp_Inr)
  from s2 obtain i where e2: "r2 = (if flag_testId fl then r1\<lparr>testId := Some i\<rparr> else r1)"
    by (cases "flag_testId fl") (auto simp add: when_flag_def dest!: read_testId_Inr)
  from s3 obtain ts where e3: "r3 = (if flag_tags fl then r2\<lparr>tags := Some ts\<rparr> else r2)"
    by (cases "flag_tags fl") (auto simp add: when_flag_def dest!: read_tags_Inr)
  from s4 obtain m where e4: "r4 = (if flag_mimeType fl then r3\<lparr>mimeType := Some m\<rparr> else r3)"
    by (cases "flag_mimeType fl") (auto simp add: when_flag_def dest!: read_mimeType_Inr)
  from s5 obtain n c where e5: "r5 = (if flag_fileContent fl
      then r4\<lparr>fileName := Some n, fileContent := Some c\<rparr> else r4)"
    by (cases "flag_fileContent fl") (auto simp add: when_flag_def dest!: read_fileContent_Inr)
  from s6 obtain rc where e6: "r6 = (if flag_routeCode fl then r5\<lparr>routeCode := Some rc\<rparr> else r5)"
    by (cases "flag_routeCode fl") (auto simp add: when_flag_def dest!: read_routeCode_Inr)
  note es = r e6 e5 e4 e3 e2 e1 r0_def
  show "status r = decode_status flags" by (simp add: es)
  show "timestamp r \<noteq> None \<longleftrightarrow> flag_timestamp (decode_flags flags)" by (simp add: es fl_def)
  show "testId r \<noteq> None \<longleftrightarrow> flag_testId (decode_flags flags)" by (simp add: es fl_def)
  show "tags r \<noteq> None \<longleftrightarrow> flag_tags (decode_flags flags)" by (simp add: es fl_def)
  show "mimeType r \<noteq> None \<longleftrightarrow> flag_mimeType (decode_flags flags)" by (simp add: es fl_def)
  show "fileName r \<noteq> None \<longleftrightarrow> flag_fileContent (decode_flags flags)" by (simp add: es fl_def)
  show "fileContent r \<noteq> None \<longleftrightarrow> flag_fileContent (decode_flags flags)" by (simp add: es fl_def)
  show "routeCode r \<noteq> None \<longleftrightarrow> flag_routeCode (decode_flags flags)" by (simp add: es fl_def)
  show "packet r = Some \<lparr> packet_length = snd pl, packet_flags = Some (decode_flags flags) \<rparr>"
    by (simp add: r fl_def)
qed

lemma decode_step_Next:
  assumes "decode_step d = Next evs d'"
  obtains sig flags pl ret where
    "readUInt8 (bl d) (offset d) = Inr sig"
    "readUInt16BE (bl d) (offset d + 1) = Inr flags"
    "readVarInt (bl d) (offset d + 3) = Inr pl"
    "read_record (bl d) (offset d) flags pl = Inr ret"
    "evs = (if sig \<noteq> signature then [BadPacket (offset d)] else []) @ [Data ret]"
    "d' = d\<lparr>offset := offset d + snd pl\<rparr>"
    "sig = signature \<or> error_listener d"
  using assms unfolding decode_step_def caught_def Let_def
  by (auto split: sum.splits if_splits)

lemma decode_step_Wait_no_data:
  "decode_step d = Wait evs \<Longrightarrow> \<forall>r. Data r \<notin> set evs"
  unfolding decode_step_def caught_def Let_def
  by (auto split: sum.splits if_splits)

lemma decode_step_Throw_no_data:
  "decode_step d = Throw evs e \<Longrightarrow> \<forall>r. Data r \<notin> set evs"
  unfolding decode_step_def caught_def Let_def
  by (auto split: sum.splits if_splits)

lemma decode_loop_Next:
  "offset d < length (bl d) \<Longrightarrow> decode_step d = Next es d' \<Longrightarrow>
     decode_loop d evs = decode_loop d' (evs @ es)"
  by (subst decode_loop.simps) simp

lemma decode_loop_Wait:
  "offset d < length (bl d) \<Longrightarrow> decode_step d = Wait es \<Longrightarrow>
     decode_loop d evs = Some (d, evs @ es, None)"
  by (subst decode_loop.simps) simp

lemma decode_loop_Throw:
  "offset d < length (bl d) \<Longrightarrow> decode_step d = Throw es e \<Longrightarrow>
     decode_loop d evs = Some (d, evs @ es, Some e)"
  by (subst decode_loop.simps) simp

lemma decode_loop_done:
  "\<not> offset d < length (bl d) \<Longrightarrow> decode_loop d evs = Some (d, evs, None)"
  by (subst decode_loop.simps) simp

lemmas read_defs = readUInt8_def readUInt16BE_def readUInt32BE_def readUIntBE_def slice_def
  be_value_def readVarInt_def readUtf8_def Let_def

lemmas record_defs = read_record_def when_flag_def decode_flags_def decode_status_def
  statusFlags_def table_value_def mask_defs read_timestamp_def read_testId_def read_tags_def
  read_mimeType_def read_fileContent_def read_routeCode_def

lemmas utf8_defs = utf8_first_def cp_units_def is_cont_def cont_bits_def

section \<open>Lemmas: the encoder\<close>

lemma length_crc32: "length (crc32 buf) = 4"
  by (simp add: crc32_def length_be_bytes)

lemma writeUIntBE_Inr:
  "writeUIntBE v n = Inr bs \<Longrightarrow> 0 \<le> v \<and> v < 256 ^ n \<and> bs = be_bytes n v"
  by (auto simp add: writeUIntBE_def split: if_splits)

lemma writeVarInt_Inr_bound: "writeVarInt v = Inr bs \<Longrightarrow> 0 \<le> v \<and> v < 1073741824"
  by (auto simp add: writeVarInt_def split: if_splits)

lemma readVarInt_writeVarInt:
  assumes "writeVarInt (int n) = Inr bs"
  shows "readVarInt (pre @ bs @ post) (length pre) = Inr (length bs, n)"
proof -
  have "n < 1073741824" using writeVarInt_Inr_bound [OF assms] by simp
  from varint_ctx [OF this] assms show ?thesis by auto
qed

lemma writeVarInt_length:
  assumes "writeVarInt (int n) = Inr bs"
  shows "length bs = (if n < 64 then 1 else if n < 16384 then 2 else if n < 4194304 then 3 else 4)"
proof -
  have "n < 1073741824" using writeVarInt_Inr_bound [OF assms] by simp
  from varint_ctx [OF this] assms show ?thesis by auto
qed

lemma lengthLength_Inr:
  "lengthLength b = Inr ll \<Longrightarrow>
     ll = (if b \<le> 62 then 1 else if b \<le> 16381 then 2 else 3) \<and> b \<le> 4194300"
  by (auto simp add: lengthLength_def split: if_splits)

text \<open>The length field takes as many bytes as \<open>lengthLength\<close> reserved for it.\<close>

lemma length_field_size:
  assumes "lengthLength b = Inr ll" "7 \<le> b" "writeVarInt (int (b + ll)) = Inr len"
  shows "length len = ll"
proof -
  from lengthLength_Inr [OF assms(1)]
  have ll: "ll = (if b \<le> 62 then 1 else if b \<le> 16381 then 2 else 3)" and b: "b \<le> 4194300"
    by simp_all
  have "length len = (if b + ll < 64 then 1 else if b + ll < 16384 then 2
                       else if b + ll < 4194304 then 3 else 4)"
    using assms(3) by (rule writeVarInt_length)
  then show ?thesis using ll b assms(2) by (auto split: if_splits)
qed

lemma signature_byte: "writeUIntBE (int signature) 1 = Inr [0xB3]"
  by (simp add: writeUIntBE_def signature_def numeral_eq_Suc)

text \<open>The shape of an encoded packet.\<close>

lemma transform_Inr:
  assumes "ObjectToSubunitStream_transform chunk = Inr bytes"
  obtains body len where
    "encode_body chunk = Inr body"
    "writeVarInt (int (length bytes)) = Inr len"
    "encode_flags chunk < 65536"
    "bytes = [0xB3] @ be_bytes 2 (int (encode_flags chunk)) @ len @ body
               @ crc32 ([0xB3] @ be_bytes 2 (int (encode_flags chunk)) @ len @ body)"
    "length bytes = 3 + length len + length body + 4"
    "length bytes \<le> 4194303"
proof -
  from assms obtain body ll flagb len where
    b: "encode_body chunk = Inr body" and
    l: "lengthLength (3 + length body + 4) = Inr ll" and
    f: "writeUIntBE (int (encode_flags chunk)) 2 = Inr flagb" and
    v: "writeVarInt (int (3 + length body + 4 + ll)) = Inr len" and
    bytes: "bytes = [0xB3] @ flagb @ len @ body @ crc32 ([0xB3] @ flagb @ len @ body)"
    unfolding ObjectToSubunitStream_transform_def Let_def signature_byte
    by (fastforce dest!: bindE_Inr)
  have ll: "length len = ll" using l _ v by (rule length_field_size) simp
  from writeUIntBE_Inr [OF f] have fb: "flagb = be_bytes 2 (int (encode_flags chunk))"
    and fl: "encode_flags chunk < 65536" by simp_all
  have len: "length bytes = 3 + length len + length body + 4"
    by (simp add: bytes fb length_be_bytes length_crc32)
  have "length bytes = 3 + length body + 4 + ll" using len ll by simp
  with v have v': "writeVarInt (int (length bytes)) = Inr len" by simp
  have "length bytes \<le> 4194303"
    using lengthLength_Inr [OF l] \<open>length bytes = 3 + length body + 4 + ll\<close>
    by (auto split: if_splits)
  with b v' fl bytes len show ?thesis unfolding fb by (rule that)
qed

lemma transform_flags:
  assumes "ObjectToSubunitStream_transform chunk = Inr bytes"
  shows "readUInt16BE bytes 1 = Inr (encode_flags chunk)"
proof -
  from assms obtain body len where
    fl: "encode_flags chunk < 65536" and
    bytes: "bytes = [0xB3] @ be_bytes 2 (int (encode_flags chunk)) @ len @ body
               @ crc32 ([0xB3] @ be_bytes 2 (int (encode_flags chunk)) @ len @ body)"
    by (rule transform_Inr)
  have "be_value (be_bytes 2 (int (encode_flags chunk))) = encode_flags chunk"
    using fl by (intro be_value_be_bytes) simp
  then show ?thesis
    by (subst bytes) (simp add: readUInt16BE_def readUIntBE_def slice_def length_be_bytes)
qed

lemma transform_length_field:
  assumes "ObjectToSubunitStream_transform chunk = Inr bytes"
  shows "\<exists>n. readVarInt bytes 3 = Inr (n, length bytes)"
proof -
  from assms obtain body len where
    v: "writeVarInt (int (length bytes)) = Inr len" and
    bytes: "bytes = [0xB3] @ be_bytes 2 (int (encode_flags chunk)) @ len @ body
               @ crc32 ([0xB3] @ be_bytes 2 (int (encode_flags chunk)) @ len @ body)" and
    le: "length bytes \<le> 4194303"
    by (rule transform_Inr)
  let ?pre = "[0xB3] @ be_bytes 2 (int (encode_flags chunk))"
  let ?post = "body @ crc32 ([0xB3] @ be_bytes 2 (int (encode_flags chunk)) @ len @ body)"
  have "readVarInt (?pre @ len @ ?post) (length ?pre) = Inr (length len, length bytes)"
    using v by (rule readVarInt_writeVarInt)
  moreover have "length ?pre = 3" by (simp add: length_be_bytes)
  moreover have "bytes = ?pre @ len @ ?post" by (subst bytes) simp
  ultimately show ?thesis by auto
qed

section \<open>Lemmas: evaluation on examples\<close>

lemmas encode_defs = ObjectToSubunitStream_transform_def encode_body_def opt_field_def
  encode_flags_def set_mask_def meta_flag_def status_code_def statusFlags_def table_value_def
  mask_defs lengthLength_def writeUtf8_def encode_tags_def encode_file_def
  encode_timestamp_def writeVarInt_def writeUIntBE_def signature_def Let_def

lemmas string_defs = js_def utf8_of_cp_def unit_cp_def pair_cp_def is_high_def is_low_def

lemma crc32_bytes: "\<exists>a b c d. crc32 buf = [a, b, c, d]"
proof -
  have "length (crc32 buf) = Suc (Suc (Suc (Suc 0)))" by (simp add: length_crc32)
  then show ?thesis by (auto simp add: length_Suc_conv)
qed

lemma byte_of_int_mod: "(word_of_int (v mod 256) :: byte) = word_of_int v"
  by (simp add: word_of_int_eq_iff take_bit_eq_mod)

lemma be_bytes_numeral:
  "be_bytes (numeral k) v = be_bytes (pred_numeral k) (v div 256) @ [word_of_int (v mod 256)]"
  by (simp add: numeral_eq_Suc byte_of_int_mod)

lemma be_bytes_Suc_0: "be_bytes (Suc 0) v = [word_of_int (v mod 256)]"
  by (simp add: byte_of_int_mod)

lemma empty_packet_encodes: "ObjectToSubunitStream_transform empty_record = Inr empty_packet"
  by (simp add: encode_defs empty_record_def empty_packet_def empty_partial_def be_bytes_numeral be_bytes_Suc_0 del: be_bytes.simps)

lemma t1_packet_encodes: "ObjectToSubunitStream_transform t1_record = Inr t1_packet"
  by (simp add: encode_defs t1_record_def empty_record_def t1_packet_def t1_partial_def
      string_defs be_bytes_numeral be_bytes_Suc_0 del: be_bytes.simps)

lemma transform_start:
  "SubunitToObjectStream_transform (SubunitToObjectStream l) chunk =
     decode_loop \<lparr> bl = chunk, offset = 0, error_listener = l \<rparr> []"
  by (simp add: SubunitToObjectStream_transform_def SubunitToObjectStream_def)

lemmas step_defs = decode_step_def caught_def signature_def read_defs record_defs utf8_defs

lemmas example_defs = t1_decoded_def t1_record_def empty_decoded_def empty_record_def
  packet_of_def no_flags_def js_def

lemma t1_whole:
  "SubunitToObjectStream_transform (SubunitToObjectStream True) t1_packet =
     Some (\<lparr> bl = t1_packet, offset = 11, error_listener = True \<rparr>, [Data t1_decoded], None)"
proof -
  obtain a b c d where crc: "crc32 t1_partial = [a, b, c, d]" using crc32_bytes by blast
  have p: "t1_packet = [0xB3, 0x28, 0x00, 0x0B, 0x02, 0x54, 0x31, a, b, c, d]"
    by (simp add: t1_packet_def crc) (simp add: t1_partial_def)
  have "decode_step \<lparr> bl = t1_packet, offset = 0, error_listener = True \<rparr> =
          Next [Data t1_decoded] \<lparr> bl = t1_packet, offset = 11, error_listener = True \<rparr>"
    unfolding p by (simp add: step_defs example_defs)
  then have "decode_loop \<lparr> bl = t1_packet, offset = 0, error_listener = True \<rparr> [] =
          decode_loop \<lparr> bl = t1_packet, offset = 11, error_listener = True \<rparr> ([] @ [Data t1_decoded])"
    by (intro decode_loop_Next) (simp_all add: p)
  also have "\<dots> = Some (\<lparr> bl = t1_packet, offset = 11, error_listener = True \<rparr>, [Data t1_decoded], None)"
    by (subst decode_loop_done) (simp_all add: p)
  finally show ?thesis by (simp only: transform_start)
qed

lemma t1_prefix: "take 6 t1_packet = [0xB3, 0x28, 0x00, 0x0B, 0x02, 0x54]"
  and t1_prefix5: "take 5 t1_packet = [0xB3, 0x28, 0x00, 0x0B, 0x02]"
  by (simp_all add: t1_packet_def t1_partial_def)

lemma length_t1_packet: "length t1_packet = 11"
  by (simp add: t1_packet_def t1_partial_def length_crc32)

lemma length_empty_packet: "length empty_packet = 8"
  by (simp add: empty_packet_def empty_partial_def length_crc32)

lemma t1_first_six:
  "SubunitToObjectStream_transform (SubunitToObjectStream True) (take 6 t1_packet) =
     Some (\<lparr> bl = take 6 t1_packet, offset = 11, error_listener = True \<rparr>,
           [Data (t1_decoded\<lparr>testId := Some (js ''T'')\<rparr>)], None)"
proof -
  let ?d = "\<lparr> bl = take 6 t1_packet, offset = 0, error_listener = True \<rparr>"
  let ?d' = "\<lparr> bl = take 6 t1_packet, offset = 11, error_listener = True \<rparr>"
  let ?r = "t1_decoded\<lparr>testId := Some (js ''T'')\<rparr>"
  have "decode_step ?d = Next [Data ?r] ?d'"
    unfolding t1_prefix by (simp add: step_defs example_defs)
  then have "decode_loop ?d [] = decode_loop ?d' ([] @ [Data ?r])"
    by (intro decode_loop_Next) (simp_all add: t1_prefix)
  also have "\<dots> = Some (?d', [Data ?r], None)"
    by (subst decode_loop_done) (simp_all add: t1_prefix)
  finally show ?thesis by (simp only: transform_start)
qed

lemma t1_rest:
  "SubunitToObjectStream_transform
       \<lparr> bl = take 6 t1_packet, offset = 11, error_listener = True \<rparr> (drop 6 t1_packet) =
     Some (\<lparr> bl = t1_packet, offset = 11, error_listener = True \<rparr>, [], None)"
  unfolding SubunitToObjectStream_transform_def
  by (subst decode_loop_done) (simp_all add: length_t1_packet)

lemma t1_first_five:
  "SubunitToObjectStream_transform (SubunitToObjectStream True) (take 5 t1_packet) =
     Some (\<lparr> bl = take 5 t1_packet, offset = 11, error_listener = True \<rparr>,
           [Data (t1_decoded\<lparr>testId := Some []\<rparr>)], None)"
proof -
  let ?d = "\<lparr> bl = take 5 t1_packet, offset = 0, error_listener = True \<rparr>"
  let ?d' = "\<lparr> bl = take 5 t1_packet, offset = 11, error_listener = True \<rparr>"
  let ?r = "t1_decoded\<lparr>testId := Some []\<rparr>"
  have "decode_step ?d = Next [Data ?r] ?d'"
    unfolding t1_prefix5 by (simp add: step_defs example_defs)
  then have "decode_loop ?d [] = decode_loop ?d' ([] @ [Data ?r])"
    by (intro decode_loop_Next) (simp_all add: t1_prefix5)
  also have "\<dots> = Some (?d', [Data ?r], None)"
    by (subst decode_loop_done) (simp_all add: t1_prefix5)
  finally show ?thesis by (simp only: transform_start)
qed

lemma empty_whole:
  "SubunitToObjectStream_transform (SubunitToObjectStream True) empty_packet =
     Some (\<lparr> bl = empty_packet, offset = 8, error_listener = True \<rparr>, [Data empty_decoded], None)"
proof -
  obtain a b c d where crc: "crc32 empty_partial = [a, b, c, d]" using crc32_bytes by blast
  have p: "empty_packet = [0xB3, 0x20, 0x00, 0x08, a, b, c, d]"
    by (simp add: empty_packet_def crc) (simp add: empty_partial_def)
  let ?d = "\<lparr> bl = empty_packet, offset = 0, error_listener = True \<rparr>"
  let ?d' = "\<lparr> bl = empty_packet, offset = 8, error_listener = True \<rparr>"
  have "decode_step ?d = Next [Data empty_decoded] ?d'"
    unfolding p by (simp add: step_defs example_defs)
  then have "decode_loop ?d [] = decode_loop ?d' ([] @ [Data empty_decoded])"
    by (intro decode_loop_Next) (simp_all add: p)
  also have "\<dots> = Some (?d', [Data empty_decoded], None)"
    by (subst decode_loop_done) (simp_all add: p)
  finally show ?thesis by (simp only: transform_start)
qed

lemma empty_length_field: "readVarInt empty_packet 3 = Inr (1, 8)"
proof -
  obtain a b c d where crc: "crc32 empty_partial = [a, b, c, d]" using crc32_bytes by blast
  have p: "empty_packet = [0xB3, 0x20, 0x00, 0x08, a, b, c, d]"
    by (simp add: empty_packet_def crc) (simp add: empty_partial_def)
  show ?thesis unfolding p by (simp add: read_defs)
qed

lemma readUIntBE_Inl: "readUIntBE buf off n = Inl e \<Longrightarrow> e = RangeError"
  by (auto simp add: readUIntBE_def split: if_splits)

lemma bindE_Inl: "bindE m f = Inl e \<Longrightarrow> m = Inl e \<or> (\<exists>x. m = Inr x \<and> f x = Inl e)"
  by (cases m) (simp_all add: bindE_def)

lemma readVarInt_Inl: "readVarInt buf i = Inl e \<Longrightarrow> e = RangeError"
  unfolding readVarInt_def readUInt8_def Let_def
  by (auto dest!: bindE_Inl readUIntBE_Inl split: if_splits)

lemma readUtf8_Inl: "readUtf8 buf i = Inl e \<Longrightarrow> e = RangeError"
  unfolding readUtf8_def Let_def
  by (auto dest!: bindE_Inl readVarInt_Inl)

lemma read_tag_list_Inl: "read_tag_list buf off n = Inl e \<Longrightarrow> e = RangeError"
  by (induction n arbitrary: off) (auto dest!: bindE_Inl readUtf8_Inl)

lemma read_timestamp_Inl: "read_timestamp buf x = Inl e \<Longrightarrow> e = RangeError"
  unfolding read_timestamp_def readUInt32BE_def
  by (auto dest!: bindE_Inl readUIntBE_Inl readVarInt_Inl split: prod.splits)

lemma read_testId_Inl: "read_testId buf x = Inl e \<Longrightarrow> e = RangeError"
  unfolding read_testId_def by (auto dest!: bindE_Inl readUtf8_Inl split: prod.splits)

lemma read_tags_Inl: "read_tags buf x = Inl e \<Longrightarrow> e = RangeError"
  unfolding read_tags_def
  by (auto dest!: bindE_Inl readVarInt_Inl read_tag_list_Inl split: prod.splits)

lemma read_mimeType_Inl: "read_mimeType buf x = Inl e \<Longrightarrow> e = RangeError"
  unfolding read_mimeType_def by (auto dest!: bindE_Inl readUtf8_Inl split: prod.splits)

lemma read_fileContent_Inl: "read_fileContent buf x = Inl e \<Longrightarrow> e = RangeError"
  unfolding read_fileContent_def Let_def
  by (auto dest!: bindE_Inl readUtf8_Inl readVarInt_Inl split: prod.splits)

lemma read_routeCode_Inl: "read_routeCode buf x = Inl e \<Longrightarrow> e = RangeError"
  unfolding read_routeCode_def by (auto dest!: bindE_Inl readUtf8_Inl split: prod.splits)

lemma when_flag_Inl:
  "when_flag c (read_timestamp buf) x = Inl e \<Longrightarrow> e = RangeError"
  "when_flag c (read_testId buf) x = Inl e \<Longrightarrow> e = RangeError"
  "when_flag c (read_tags buf) x = Inl e \<Longrightarrow> e = RangeError"
  "when_flag c (read_mimeType buf) x = Inl e \<Longrightarrow> e = RangeError"
  "when_flag c (read_fileContent buf) x = Inl e \<Longrightarrow> e = RangeError"
  "when_flag c (read_routeCode buf) x = Inl e \<Longrightarrow> e = RangeError"
  by (auto simp add: when_flag_def split: if_splits
      dest: read_timestamp_Inl read_testId_Inl read_tags_Inl read_mimeType_Inl
        read_fileContent_Inl read_routeCode_Inl)

text \<open>The only exception of the field reads is the RangeError.\<close>

lemma read_record_Inl:
  assumes "read_record buf off flags pl = Inl e"
  shows "e = RangeError"
  using assms unfolding read_record_def Let_def
  by (auto dest!: bindE_Inl when_flag_Inl split: prod.splits)

text \<open>Every Record that the loop pushes comes from a step that ended in \<open>Next\<close>.\<close>

lemma decode_loop_records:
  assumes "decode_loop d evs = Some (d', evs', err)"
    and "\<And>r. Data r \<in> set evs \<Longrightarrow> P r"
    and step: "\<And>d0 es d1 r. decode_step d0 = Next es d1 \<Longrightarrow> Data r \<in> set es \<Longrightarrow> P r"
  shows "\<And>r. Data r \<in> set evs' \<Longrightarrow> P r"
proof -
  define Q where "Q = (\<lambda>(d::decoder) evs (y :: decoder \<times> event list \<times> error option).
    (\<forall>r. Data r \<in> set evs \<longrightarrow> P r) \<longrightarrow> (\<forall>r. Data r \<in> set (fst (snd y)) \<longrightarrow> P r))"
  have "Q d evs (d', evs', err)"
  proof (rule decode_loop.raw_induct [where P = Q, OF _ assms(1)])
    fix loop d evs y
    assume IH: "\<And>d evs y. loop d evs = Some y \<Longrightarrow> Q d evs y"
      and body: "(if offset d < length (bl d)
          then case decode_step d of Wait es \<Rightarrow> Some (d, evs @ es, None)
               | Throw es e \<Rightarrow> Some (d, evs @ es, Some e)
               | Next es d' \<Rightarrow> loop d' (evs @ es)
          else Some (d, evs, None)) = Some y"
    show "Q d evs y"
    proof (cases "offset d < length (bl d)")
      case False
      with body show ?thesis by (auto simp add: Q_def)
    next
      case True
      show ?thesis
      proof (cases "decode_step d")
        case (Wait es)
        with True body decode_step_Wait_no_data [OF Wait] show ?thesis
          by (auto simp add: Q_def)
      next
        case (Throw es e)
        with True body decode_step_Throw_no_data [OF Throw] show ?thesis
          by (auto simp add: Q_def)
      next
        case (Next es d1)
        with True body have "loop d1 (evs @ es) = Some y" by simp
        from IH [OF this] step [OF Next] show ?thesis by (auto simp add: Q_def)
      qed
    qed
  qed
  then show "\<And>r. Data r \<in> set evs' \<Longrightarrow> P r" using assms(2) by (simp add: Q_def)
qed

lemma decoded_file_pair:
  assumes "decode_step d = Next es d'" "Data r \<in> set es"
  shows "fileName r \<noteq> None \<longleftrightarrow> fileContent r \<noteq> None"
proof -
  from assms(1) obtain sig flags pl ret where
    rr: "read_record (bl d) (offset d) flags pl = Inr ret" and
    es: "es = (if sig \<noteq> signature then [BadPacket (offset d)] else []) @ [Data ret]"
    by (rule decode_step_Next)
  from es assms(2) have "r = ret" by (auto split: if_splits)
  with read_record_Inr(6,7) [OF rr] show ?thesis by simp
qed

lemma status_code_and_64: "status_code st AND 64 = 0"
  using status_code_cases [of st] by auto

lemma encode_flags_file:
  assumes "fileName chunk = None \<or> fileContent chunk = None"
  shows "encode_flags chunk AND mask_fileContent = 0"
proof -
  have "(if fileName chunk \<noteq> None \<and> fileContent chunk \<noteq> None
         then mask_fileContent AND mask_fileContent else 0) = 0"
    using assms by auto
  then have "encode_flags chunk AND mask_fileContent = status_code (status chunk) AND 64"
    unfolding encode_flags_and by (simp add: mask_defs)
  then show ?thesis by (simp only: status_code_and_64)
qed

lemma encode_flags_unpaired:
  assumes "fileName chunk = None \<or> fileContent chunk = None"
  shows "encode_flags (chunk\<lparr>fileName := None, fileContent := None\<rparr>) = encode_flags chunk"
proof (cases "fileName chunk")
  case None
  then show ?thesis by (simp add: encode_flags_def meta_flag_def set_mask_def)
next
  case (Some a)
  with assms have "fileContent chunk = None" by simp
  then show ?thesis by (simp add: encode_flags_def meta_flag_def set_mask_def)
qed

lemma encode_body_unpaired:
  assumes "fileName chunk = None \<or> fileContent chunk = None"
  shows "encode_body (chunk\<lparr>fileName := None, fileContent := None\<rparr>) = encode_body chunk"
  using assms by (auto simp add: encode_body_def split: option.splits)

lemma transform_unpaired:
  assumes "fileName chunk = None \<or> fileContent chunk = None"
  shows "ObjectToSubunitStream_transform (chunk\<lparr>fileName := None, fileContent := None\<rparr>)
           = ObjectToSubunitStream_transform chunk"
  unfolding ObjectToSubunitStream_transform_def
  by (simp only: encode_flags_unpaired [OF assms] encode_body_unpaired [OF assms])

lemma stray_listening:
  "SubunitToObjectStream_transform (SubunitToObjectStream True) (0x00 # empty_packet) =
     Some (\<lparr> bl = 0x00 # empty_packet, offset = 0, error_listener = True \<rparr>, [BadPacket 0], None)"
proof -
  obtain a b c d where crc: "crc32 empty_partial = [a, b, c, d]" using crc32_bytes by blast
  have p: "empty_packet = [0xB3, 0x20, 0x00, 0x08, a, b, c, d]"
    by (simp add: empty_packet_def crc) (simp add: empty_partial_def)
  let ?d = "\<lparr> bl = 0x00 # empty_packet, offset = 0, error_listener = True \<rparr>"
  have "decode_step ?d = Wait [BadPacket 0]"
    unfolding p by (simp add: step_defs example_defs bindE_def)
  then have "decode_loop ?d [] = Some (?d, [] @ [BadPacket 0], None)"
    by (intro decode_loop_Wait) (simp_all add: p)
  then show ?thesis by (simp add: transform_start)
qed

lemma stray_not_listening:
  "SubunitToObjectStream_transform (SubunitToObjectStream False) (0x00 # empty_packet) =
     Some (\<lparr> bl = 0x00 # empty_packet, offset = 0, error_listener = False \<rparr>, [],
           Some UncaughtErrorEvent)"
proof -
  obtain a b c d where crc: "crc32 empty_partial = [a, b, c, d]" using crc32_bytes by blast
  have p: "empty_packet = [0xB3, 0x20, 0x00, 0x08, a, b, c, d]"
    by (simp add: empty_packet_def crc) (simp add: empty_partial_def)
  let ?d = "\<lparr> bl = 0x00 # empty_packet, offset = 0, error_listener = False \<rparr>"
  have "decode_step ?d = Throw [] UncaughtErrorEvent"
    unfolding p by (simp add: step_defs example_defs)
  then have "decode_loop ?d [] = Some (?d, [] @ [], Some UncaughtErrorEvent)"
    by (intro decode_loop_Throw) (simp_all add: p)
  then show ?thesis by (simp add: transform_start)
qed

section \<open>Status codes (claim C8)\<close>

lemma decoded_status:
  assumes "decode_step d = Next es d'" "Data r \<in> set es"
    "readUInt16BE (bl d) (offset d + 1) = Inr flags"
  shows "status r = decode_status flags"
proof -
  from assms(1) obtain sig flags' pl ret where
    f: "readUInt16BE (bl d) (offset d + 1) = Inr flags'" and
    rr: "read_record (bl d) (offset d) flags' pl = Inr ret" and
    es: "es = (if sig \<noteq> signature then [BadPacket (offset d)] else []) @ [Data ret]"
    by (rule decode_step_Next)
  from es assms(2) have "r = ret" by (auto split: if_splits)
  moreover from f assms(3) have "flags' = flags" by simp
  ultimately show ?thesis using read_record_Inr(1) [OF rr] by simp
qed

lemma decode_status_table:
  assumes "(code, name) \<in> set statusFlags" "flags AND 7 = code"
  shows "decode_status flags = table_value name"
  using assms(1)
  by (rule statusFlags_cases) (insert assms(2), simp_all add: decode_status_def statusFlags_def)

lemma status_code_less: "status_code st < 8"
  using status_code_cases [of st] by auto

lemma status_only_flag_bytes:
  assumes "c < 8"
  shows "writeUIntBE (int (0x2000 OR c)) 2 = Inr [0x20, of_nat c]"
proof -
  from assms have "c \<in> {0, 1, 2, 3, 4, 5, 6, 7}" by auto
  then show ?thesis
    by (elim insertE emptyE)
      (simp_all add: writeUIntBE_def be_bytes_numeral be_bytes_Suc_0 del: be_bytes.simps)
qed

lemma status_only_packet:
  "ObjectToSubunitStream_transform (empty_record\<lparr>status := st\<rparr>) =
     Inr ([0xB3, 0x20, of_nat (status_code st), 0x08]
          @ crc32 [0xB3, 0x20, of_nat (status_code st), 0x08])"
proof -
  have fl: "encode_flags (empty_record\<lparr>status := st\<rparr>) = 0x2000 OR status_code st"
    by (simp add: encode_flags_def set_mask_def meta_flag_def empty_record_def)
  have body: "encode_body (empty_record\<lparr>status := st\<rparr>) = Inr []"
    by (simp add: encode_body_def opt_field_def empty_record_def)
  have w: "writeUIntBE (int (0x2000 OR status_code st)) 2 = Inr [0x20, of_nat (status_code st)]"
    by (rule status_only_flag_bytes) (rule status_code_less)
  have s: "writeUIntBE (int signature) 1 = Inr [0xB3]"
    by (simp add: writeUIntBE_def signature_def be_bytes_numeral be_bytes_Suc_0 del: be_bytes.simps)
  have l: "writeVarInt 8 = Inr [0x08]"
    by (simp add: writeVarInt_def writeUIntBE_def be_bytes_numeral be_bytes_Suc_0 del: be_bytes.simps)
  have s': "writeUIntBE (int signature) (Suc 0) = Inr [0xB3]" using s by simp
  show ?thesis
    by (simp add: ObjectToSubunitStream_transform_def fl body w s' l lengthLength_def)
qed

lemma status_only_step:
  assumes "c < 8"
  shows "decode_step \<lparr> bl = [0xB3, 0x20, of_nat c, 0x08, b0, b1, b2, b3], offset = 0,
                        error_listener = l \<rparr> =
     Next [Data (empty_record\<lparr>status := decode_status c, packet := packet_of 8 no_flags\<rparr>)]
       \<lparr> bl = [0xB3, 0x20, of_nat c, 0x08, b0, b1, b2, b3], offset = 8, error_listener = l \<rparr>"
proof -
  from assms have "c \<in> {0, 1, 2, 3, 4, 5, 6, 7}" by auto
  then show ?thesis
    by (elim insertE emptyE) (simp_all add: step_defs example_defs)
qed

lemma decode_status_code:
  "decode_status (status_code st) =
     (if st \<in> set (map (\<lambda>(code, name). table_value name) statusFlags) then st else Null)"
proof (cases "st \<in> set (map (\<lambda>(code, name). table_value name) statusFlags)")
  case True
  then obtain code name where m: "(code, name) \<in> set statusFlags" and st: "st = table_value name"
    by auto
  from m have "status_code (table_value name) = code" by (rule status_code_table)
  moreover have "decode_status code = table_value name"
    using m
  proof (rule decode_status_table)
    show "code AND 7 = code" using status_code_and_7 [of "table_value name"] calculation by simp
  qed
  ultimately show ?thesis using True st by simp
next
  case False
  then have "\<forall>(code, name) \<in> set statusFlags. table_value name \<noteq> st" by auto
  then have "status_code st = 0" by (rule status_code_unrecognized)
  then show ?thesis using False by (simp add: decode_status_none)
qed

lemma status_only_round_trip:
  "\<exists>bytes flags r d'.
      ObjectToSubunitStream_transform (empty_record\<lparr>status := st\<rparr>) = Inr bytes
    \<and> readUInt16BE bytes 1 = Inr flags \<and> flags AND 7 = status_code st
    \<and> decode_step \<lparr> bl = bytes, offset = 0, error_listener = l \<rparr> = Next [Data r] d'
    \<and> status r = (if st \<in> set (map (\<lambda>(code, name). table_value name) statusFlags)
                   then st else Null)"
proof -
  let ?hdr = "[0xB3, 0x20, of_nat (status_code st), 0x08] :: buffer"
  let ?chunk = "empty_record\<lparr>status := st\<rparr>"
  obtain b0 b1 b2 b3 where crc: "crc32 ?hdr = [b0, b1, b2, b3]" using crc32_bytes by blast
  let ?bytes = "[0xB3, 0x20, of_nat (status_code st), 0x08, b0, b1, b2, b3] :: buffer"
  let ?r = "empty_record\<lparr>status := decode_status (status_code st), packet := packet_of 8 no_flags\<rparr>"
  have enc: "ObjectToSubunitStream_transform ?chunk = Inr ?bytes"
    using status_only_packet [of st] by (simp add: crc)
  then have f: "readUInt16BE ?bytes 1 = Inr (encode_flags ?chunk)" by (rule transform_flags)
  have low: "encode_flags ?chunk AND 7 = status_code st"
    using encode_flags_status [of ?chunk] by simp
  have step: "decode_step \<lparr> bl = ?bytes, offset = 0, error_listener = l \<rparr> =
      Next [Data ?r] \<lparr> bl = ?bytes, offset = 8, error_listener = l \<rparr>"
    by (rule status_only_step) (rule status_code_less)
  have st: "status ?r = (if st \<in> set (map (\<lambda>(code, name). table_value name) statusFlags)
                   then st else Null)"
    using decode_status_code [of st] by simp
  from enc f low step st show ?thesis by blast
qed

text \<open>
  Claim C8. The encoder writes into the low three bits of the flag field of every packet
  the code that the reverse lookup finds for the Record's status: 6 for \<open>'fail'\<close>, its own
  code for every status of the table, and no bits, so 0, for a status that is not in the
  table (\<open>undefined\<close> among them); such a flag field decodes to \<open>null\<close>. The decoder gives
  every Record it pushes the status that the table has for the low three bits of the
  packet's flag field, whatever the other bits: \<open>'fail'\<close> for 6, \<open>null\<close> for 0. The
  Record \<open>{status: st}\<close> encodes for every \<open>st\<close>, and its packet decodes to a Record
  whose status is \<open>st\<close> if the table has it and \<open>null\<close> if not.
\<close>

theorem status_codes:
  "(status chunk = Str (js ''fail'') \<and> ObjectToSubunitStream_transform chunk = Inr bytes \<longrightarrow>
      (\<exists>flags. readUInt16BE bytes 1 = Inr flags \<and> flags AND 7 = 6))
   \<and> (decode_step d = Next es d' \<and> Data r \<in> set es
        \<and> readUInt16BE (bl d) (offset d + 1) = Inr flags \<and> flags AND 7 = 6 \<longrightarrow>
      status r = Str (js ''fail''))
   \<and> (\<forall>(code, name) \<in> set statusFlags. status_code (table_value name) = code)
   \<and> encode_flags chunk AND 7 = status_code (status chunk)
   \<and> ((\<forall>(code, name) \<in> set statusFlags. table_value name \<noteq> st) \<longrightarrow> status_code st = 0)
   \<and> status_code Undefined = 0
   \<and> decode_status 0 = Null
   \<and> (ObjectToSubunitStream_transform chunk = Inr bytes \<longrightarrow>
      (\<exists>flags. readUInt16BE bytes 1 = Inr flags \<and> flags AND 7 = status_code (status chunk)
         \<and> (\<forall>(code, name) \<in> set statusFlags. status chunk = table_value name \<longrightarrow> flags AND 7 = code)
         \<and> ((\<forall>(code, name) \<in> set statusFlags. table_value name \<noteq> status chunk) \<longrightarrow>
              flags AND 7 = 0 \<and> decode_status flags = Null)))
   \<and> (decode_step d = Next es d' \<and> Data r \<in> set es
        \<and> readUInt16BE (bl d) (offset d + 1) = Inr flags \<longrightarrow>
      status r = decode_status flags
      \<and> (flags AND 7 = 0 \<longrightarrow> status r = Null)
      \<and> (\<forall>(code, name) \<in> set statusFlags. flags AND 7 = code \<longrightarrow> status r = table_value name))
   \<and> (\<forall>(code, name) \<in> set statusFlags. field AND 7 = code \<longrightarrow> decode_status field = table_value name)
   \<and> (field AND 7 = 0 \<longrightarrow> decode_status field = Null)
   \<and> (field AND 7 = 6 \<longrightarrow> decode_status field = Str (js ''fail''))
   \<and> (\<exists>bs f rec e.
        ObjectToSubunitStream_transform (empty_record\<lparr>status := st\<rparr>) = Inr bs
      \<and> readUInt16BE bs 1 = Inr f \<and> f AND 7 = status_code st
      \<and> decode_step \<lparr> bl = bs, offset = 0, error_listener = l \<rparr> = Next [Data rec] e
      \<and> status rec = (if st \<in> set (map (\<lambda>(code, name). table_value name) statusFlags)
                       then st else Null))"
proof (intro conjI impI)
  assume a: "status chunk = Str (js ''fail'') \<and> ObjectToSubunitStream_transform chunk = Inr bytes"
  then have "ObjectToSubunitStream_transform chunk = Inr bytes" by blast
  then have "readUInt16BE bytes 1 = Inr (encode_flags chunk)" by (rule transform_flags)
  moreover have "encode_flags chunk AND 7 = 6"
    using a by (simp add: encode_flags_status status_code_fail)
  ultimately show "\<exists>flags. readUInt16BE bytes 1 = Inr flags \<and> flags AND 7 = 6" by blast
next
  assume "decode_step d = Next es d' \<and> Data r \<in> set es
        \<and> readUInt16BE (bl d) (offset d + 1) = Inr flags \<and> flags AND 7 = 6"
  then show "status r = Str (js ''fail'')"
    using decoded_status [of d es d' r flags] by (simp add: decode_status_fail)
next
  show "\<forall>(code, name) \<in> set statusFlags. status_code (table_value name) = code"
    using status_code_table by blast
next
  show "encode_flags chunk AND 7 = status_code (status chunk)" by (rule encode_flags_status)
next
  assume "\<forall>(code, name) \<in> set statusFlags. table_value name \<noteq> st"
  then show "status_code st = 0" by (rule status_code_unrecognized)
next
  show "status_code Undefined = 0" by (rule status_code_Undefined)
next
  show "decode_status 0 = Null" by (simp add: decode_status_none)
next
  assume "ObjectToSubunitStream_transform chunk = Inr bytes"
  then have f: "readUInt16BE bytes 1 = Inr (encode_flags chunk)" by (rule transform_flags)
  have low: "encode_flags chunk AND 7 = status_code (status chunk)" by (rule encode_flags_status)
  have tab: "\<forall>(code, name) \<in> set statusFlags.
      status chunk = table_value name \<longrightarrow> encode_flags chunk AND 7 = code"
    using status_code_table low by auto
  have un: "(\<forall>(code, name) \<in> set statusFlags. table_value name \<noteq> status chunk) \<longrightarrow>
      encode_flags chunk AND 7 = 0 \<and> decode_status (encode_flags chunk) = Null"
  proof
    assume "\<forall>(code, name) \<in> set statusFlags. table_value name \<noteq> status chunk"
    then have "status_code (status chunk) = 0" by (rule status_code_unrecognized)
    with low have "encode_flags chunk AND 7 = 0" by simp
    then show "encode_flags chunk AND 7 = 0 \<and> decode_status (encode_flags chunk) = Null"
      by (simp add: decode_status_none)
  qed
  from f low tab un
  show "\<exists>flags. readUInt16BE bytes 1 = Inr flags \<and> flags AND 7 = status_code (status chunk)
         \<and> (\<forall>(code, name) \<in> set statusFlags. status chunk = table_value name \<longrightarrow> flags AND 7 = code)
         \<and> ((\<forall>(code, name) \<in> set statusFlags. table_value name \<noteq> status chunk) \<longrightarrow>
              flags AND 7 = 0 \<and> decode_status flags = Null)"
    by blast
next
  assume a: "decode_step d = Next es d' \<and> Data r \<in> set es
        \<and> readUInt16BE (bl d) (offset d + 1) = Inr flags"
  then show s: "status r = decode_status flags"
    using decoded_status [of d es d' r flags] by simp
  {
    assume "flags AND 7 = 0"
    then show "status r = Null" using s by (simp add: decode_status_none)
  }
  show "\<forall>(code, name) \<in> set statusFlags. flags AND 7 = code \<longrightarrow> status r = table_value name"
    using s decode_status_table [of _ _ flags] by auto
next
  show "\<forall>(code, name) \<in> set statusFlags. field AND 7 = code \<longrightarrow> decode_status field = table_value name"
    using decode_status_table [of _ _ field] by auto
next
  assume "field AND 7 = 0"
  then show "decode_status field = Null" by (rule decode_status_none)
next
  assume "field AND 7 = 6"
  then show "decode_status field = Str (js ''fail'')" by (rule decode_status_fail)
next
  show "\<exists>bs f rec e.
        ObjectToSubunitStream_transform (empty_record\<lparr>status := st\<rparr>) = Inr bs
      \<and> readUInt16BE bs 1 = Inr f \<and> f AND 7 = status_code st
      \<and> decode_step \<lparr> bl = bs, offset = 0, error_listener = l \<rparr> = Next [Data rec] e
      \<and> status rec = (if st \<in> set (map (\<lambda>(code, name). table_value name) statusFlags)
                       then st else Null)"
    by (rule status_only_round_trip)
qed


theorem status_codes_witness:
  "status fail_record = Str (js ''fail'')
   \<and> ObjectToSubunitStream_transform fail_record = Inr fail_packet
   \<and> (\<exists>flags. readUInt16BE fail_packet 1 = Inr flags \<and> flags AND 7 = 6)
   \<and> decode_step \<lparr> bl = fail_packet, offset = 0, error_listener = True \<rparr> =
         Next [Data fail_decoded] \<lparr> bl = fail_packet, offset = 8, error_listener = True \<rparr>
   \<and> readUInt16BE fail_packet 1 = Inr 0x2006 \<and> (0x2006 :: nat) AND 7 = 6
   \<and> status fail_decoded = Str (js ''fail'')
   \<and> (6, Some (js ''fail'')) \<in> set statusFlags
   \<and> status_code (Str (js ''fail'')) = 6
   \<and> Str (js ''no such status'') \<notin> set (map (\<lambda>(code, name). table_value name) statusFlags)
   \<and> status_code (Str (js ''no such status'')) = 0
   \<and> status empty_record = Undefined
   \<and> Undefined \<notin> set (map (\<lambda>(code, name). table_value name) statusFlags)
   \<and> ObjectToSubunitStream_transform empty_record = Inr empty_packet
   \<and> (\<exists>flags. readUInt16BE empty_packet 1 = Inr flags \<and> flags AND 7 = 0
         \<and> decode_status flags = Null)
   \<and> decode_step \<lparr> bl = empty_packet, offset = 0, error_listener = True \<rparr> =
         Next [Data empty_decoded] \<lparr> bl = empty_packet, offset = 8, error_listener = True \<rparr>
   \<and> readUInt16BE empty_packet 1 = Inr 0x2000 \<and> (0x2000 :: nat) AND 7 = 0
   \<and> status empty_decoded = Null
   \<and> (0, None) \<in> set statusFlags \<and> table_value None = Null
   \<and> decode_status 0x2006 = Str (js ''fail'')
   \<and> decode_status 0x2000 = Null"
proof -
  obtain a b c d where crc: "crc32 fail_partial = [a, b, c, d]" using crc32_bytes by blast
  have p: "fail_packet = [0xB3, 0x20, 0x06, 0x08, a, b, c, d]"
    by (simp add: fail_packet_def crc) (simp add: fail_partial_def)
  obtain a' b' c' d' where crc': "crc32 empty_partial = [a', b', c', d']"
    using crc32_bytes by blast
  have q: "empty_packet = [0xB3, 0x20, 0x00, 0x08, a', b', c', d']"
    by (simp add: empty_packet_def crc') (simp add: empty_partial_def)
  let ?d = "\<lparr> bl = fail_packet, offset = 0, error_listener = True \<rparr>"
  let ?d' = "\<lparr> bl = fail_packet, offset = 8, error_listener = True \<rparr>"
  let ?e = "\<lparr> bl = empty_packet, offset = 0, error_listener = True \<rparr>"
  let ?e' = "\<lparr> bl = empty_packet, offset = 8, error_listener = True \<rparr>"
  let ?no = "Str (js ''no such status'')"
  have 0: "status fail_record = Str (js ''fail'')"
    by (simp add: fail_record_def empty_record_def)
  have 1: "ObjectToSubunitStream_transform fail_record = Inr fail_packet"
    by (simp add: encode_defs fail_record_def empty_record_def fail_packet_def fail_partial_def
        string_defs be_bytes_numeral be_bytes_Suc_0 del: be_bytes.simps)
  have 2: "decode_step ?d = Next [Data fail_decoded] ?d'"
    unfolding p by (simp add: step_defs example_defs fail_decoded_def fail_record_def)
  have 3: "readUInt16BE fail_packet 1 = Inr 0x2006"
    unfolding p by (simp add: read_defs)
  have 4: "(0x2006 :: nat) AND 7 = 6" by simp
  have 5: "(6, Some (js ''fail'')) \<in> set statusFlags" by (simp add: statusFlags_def)
  have 6: "\<forall>(code, name) \<in> set statusFlags. table_value name \<noteq> ?no"
    by (simp add: statusFlags_def table_value_def js_def)
  have 7: "?no \<notin> set (map (\<lambda>(code, name). table_value name) statusFlags)"
    by (simp add: statusFlags_def table_value_def js_def)
  have 8: "status empty_record = Undefined" by (simp add: empty_record_def)
  have 9: "\<forall>(code, name) \<in> set statusFlags. table_value name \<noteq> status empty_record"
    by (simp add: statusFlags_def table_value_def empty_record_def)
  have 10: "Undefined \<notin> set (map (\<lambda>(code, name). table_value name) statusFlags)"
    by (simp add: statusFlags_def table_value_def)
  have 11: "ObjectToSubunitStream_transform empty_record = Inr empty_packet"
    by (rule empty_packet_encodes)
  have 12: "decode_step ?e = Next [Data empty_decoded] ?e'"
    unfolding q by (simp add: step_defs example_defs)
  have 13: "readUInt16BE empty_packet 1 = Inr 0x2000"
    unfolding q by (simp add: read_defs)
  have 14: "(0x2000 :: nat) AND 7 = 0" by simp
  have 15: "(0, None) \<in> set statusFlags" by (simp add: statusFlags_def)
  have 16: "table_value None = Null" by (simp add: table_value_def)
  note F = status_codes [where chunk = fail_record and bytes = fail_packet and d = ?d
      and es = "[Data fail_decoded]" and d' = ?d' and r = fail_decoded and flags = "0x2006"
      and st = ?no and field = "0x2006"]
  note E = status_codes [where chunk = empty_record and bytes = empty_packet and d = ?e
      and es = "[Data empty_decoded]" and d' = ?e' and r = empty_decoded and flags = "0x2000"
      and st = Undefined and field = "0x2000"]
  have r1: "\<exists>flags. readUInt16BE fail_packet 1 = Inr flags \<and> flags AND 7 = 6"
    using F [THEN conjunct1] 0 1 by blast
  have r2: "status fail_decoded = Str (js ''fail'')"
    using F [THEN conjunct2, THEN conjunct1] 2 3 4 by simp
  have r3: "status_code (Str (js ''fail'')) = 6"
    using F [THEN conjunct2, THEN conjunct2, THEN conjunct1] 5
    by (auto simp add: table_value_def)
  have r4: "status_code ?no = 0"
    using F [THEN conjunct2, THEN conjunct2, THEN conjunct2, THEN conjunct2, THEN conjunct1] 6
    by blast
  note E8 = E [THEN conjunct2, THEN conjunct2, THEN conjunct2, THEN conjunct2, THEN conjunct2,
      THEN conjunct2, THEN conjunct2]
  note F8 = F [THEN conjunct2, THEN conjunct2, THEN conjunct2, THEN conjunct2, THEN conjunct2,
      THEN conjunct2, THEN conjunct2]
  have r5: "\<exists>flags. readUInt16BE empty_packet 1 = Inr flags \<and> flags AND 7 = 0
      \<and> decode_status flags = Null"
    using E8 [THEN conjunct1] 11 9 by blast
  have rd: "readUInt16BE (bl ?e) (offset ?e + 1) = Inr 0x2000" using 13 by simp
  have mem: "Data empty_decoded \<in> set [Data empty_decoded]" by simp
  have r6: "status empty_decoded = Null"
    using E8 [THEN conjunct2, THEN conjunct1, THEN mp, OF conjI [OF 12 conjI [OF mem rd]]] 14
    by blast
  have r7: "decode_status 0x2006 = Str (js ''fail'')"
    using F8 [THEN conjunct2, THEN conjunct2, THEN conjunct2, THEN conjunct2, THEN conjunct1] 4
    by blast
  have r8: "decode_status 0x2000 = Null"
    using E8 [THEN conjunct2, THEN conjunct2, THEN conjunct2, THEN conjunct1] 14 by blast
  from 0 1 r1 2 3 4 r2 5 r3 7 r4 8 10 11 r5 12 13 14 r6 15 16 r7 r8
  show ?thesis by (intro conjI)
qed

section \<open>File name and file content (claim C9)\<close>

lemma decoded_file_flag:
  assumes "decode_step d = Next es d'" "Data r \<in> set es"
  shows "\<exists>n fl. packet r = packet_of n fl \<and> (fileName r \<noteq> None \<longleftrightarrow> flag_fileContent fl)
                 \<and> (fileContent r \<noteq> None \<longleftrightarrow> flag_fileContent fl)"
proof -
  from assms(1) obtain sig flags pl ret where
    rr: "read_record (bl d) (offset d) flags pl = Inr ret" and
    es: "es = (if sig \<noteq> signature then [BadPacket (offset d)] else []) @ [Data ret]"
    by (rule decode_step_Next)
  from es assms(2) have "r = ret" by (auto split: if_splits)
  with read_record_Inr(6,7,9) [OF rr] show ?thesis by (auto simp add: packet_of_def)
qed

text \<open>
  Claim C9. A Record with only one of \<open>fileName\<close> and \<open>fileContent\<close> is encoded without the
  fileContent flag bit and without file fields: its packet is that of the Record with
  neither. Every Record the decoder pushes has \<open>fileName\<close> set if and only if it has
  \<open>fileContent\<close> set, both exactly when its fileContent flag is set.
\<close>

theorem file_fields_paired:
  "(fileName chunk = None \<or> fileContent chunk = None \<longrightarrow>
        encode_flags chunk AND mask_fileContent = 0
      \<and> encode_body chunk = encode_body (chunk\<lparr>fileName := None, fileContent := None\<rparr>)
      \<and> ObjectToSubunitStream_transform chunk =
          ObjectToSubunitStream_transform (chunk\<lparr>fileName := None, fileContent := None\<rparr>))
   \<and> (SubunitToObjectStream_transform d bytes = Some (d', evs, err) \<longrightarrow>
        (\<forall>r. Data r \<in> set evs \<longrightarrow>
           (fileName r \<noteq> None \<longleftrightarrow> fileContent r \<noteq> None)
         \<and> (\<exists>n fl. packet r = packet_of n fl \<and> (fileName r \<noteq> None \<longleftrightarrow> flag_fileContent fl))))"
proof (intro conjI impI allI)
  assume a: "fileName chunk = None \<or> fileContent chunk = None"
  show "encode_flags chunk AND mask_fileContent = 0" using a by (rule encode_flags_file)
  show "encode_body chunk = encode_body (chunk\<lparr>fileName := None, fileContent := None\<rparr>)"
    using encode_body_unpaired [OF a] by simp
  show "ObjectToSubunitStream_transform chunk =
          ObjectToSubunitStream_transform (chunk\<lparr>fileName := None, fileContent := None\<rparr>)"
    using transform_unpaired [OF a] by simp
next
  fix r
  assume t: "SubunitToObjectStream_transform d bytes = Some (d', evs, err)"
    and r: "Data r \<in> set evs"
  let ?P = "\<lambda>r. (fileName r \<noteq> None \<longleftrightarrow> fileContent r \<noteq> None)
         \<and> (\<exists>n fl. packet r = packet_of n fl \<and> (fileName r \<noteq> None \<longleftrightarrow> flag_fileContent fl))"
  from t have l: "decode_loop (d\<lparr>bl := bl d @ bytes\<rparr>) [] = Some (d', evs, err)"
    by (simp add: SubunitToObjectStream_transform_def)
  have "?P r"
  proof (rule decode_loop_records [where P = ?P, OF l _ _ r])
    fix r assume "Data r \<in> set []" then show "?P r" by simp
  next
    fix d0 es d1 r
    assume "decode_step d0 = Next es d1" "Data r \<in> set es"
    from decoded_file_flag [OF this] show "?P r" by auto
  qed
  then show "(fileName r \<noteq> None) = (fileContent r \<noteq> None)"
    and "\<exists>n fl. packet r = packet_of n fl \<and> (fileName r \<noteq> None) = flag_fileContent fl"
    by blast+
qed

theorem file_fields_paired_witness:
  "(fileName name_only_record = Some (js ''log'') \<and> fileContent name_only_record = None)
   \<and> encode_flags name_only_record AND mask_fileContent = 0
   \<and> ObjectToSubunitStream_transform name_only_record = ObjectToSubunitStream_transform empty_record
   \<and> SubunitToObjectStream_transform (SubunitToObjectStream True) t1_packet =
       Some (\<lparr> bl = t1_packet, offset = 11, error_listener = True \<rparr>, [Data t1_decoded], None)
   \<and> fileName t1_decoded = None \<and> fileContent t1_decoded = None"
proof -
  have 1: "fileName name_only_record = Some (js ''log'')" "fileContent name_only_record = None"
    by (simp_all add: name_only_record_def empty_record_def)
  have 2: "name_only_record\<lparr>fileName := None, fileContent := None\<rparr> = empty_record"
    by (simp add: name_only_record_def empty_record_def)
  have 3: "Data t1_decoded \<in> set [Data t1_decoded]" by simp
  from file_fields_paired [of name_only_record "SubunitToObjectStream True" t1_packet
      "\<lparr> bl = t1_packet, offset = 11, error_listener = True \<rparr>" "[Data t1_decoded]" None]
    1 2 3 t1_whole
  show ?thesis by (auto simp add: example_defs)
qed

section \<open>A packet that arrives in two chunks (claims C2 and C3)\<close>

text \<open>
  Claim C2, at the packet of \<open>{testId: 'T1'}\<close> split after its sixth byte. In one chunk the
  packet gives the Record with test id \<open>'T1'\<close>. In two chunks the first call already pushes
  a Record, with the test id \<open>'T'\<close> that the first chunk holds, and moves the cursor past
  the whole packet; the second call pushes nothing.
\<close>

theorem split_packet_loses_bytes:
  "SubunitToObjectStream_transform (SubunitToObjectStream True) t1_packet =
     Some (\<lparr> bl = t1_packet, offset = 11, error_listener = True \<rparr>, [Data t1_decoded], None)
   \<and> SubunitToObjectStream_transform (SubunitToObjectStream True) (take 6 t1_packet) =
     Some (\<lparr> bl = take 6 t1_packet, offset = 11, error_listener = True \<rparr>,
           [Data (t1_decoded\<lparr>testId := Some (js ''T'')\<rparr>)], None)
   \<and> SubunitToObjectStream_transform
         \<lparr> bl = take 6 t1_packet, offset = 11, error_listener = True \<rparr> (drop 6 t1_packet) =
     Some (\<lparr> bl = t1_packet, offset = 11, error_listener = True \<rparr>, [], None)
   \<and> t1_decoded\<lparr>testId := Some (js ''T'')\<rparr> \<noteq> t1_decoded"
proof -
  have "t1_decoded\<lparr>testId := Some (js ''T'')\<rparr> \<noteq> t1_decoded"
  proof
    assume "t1_decoded\<lparr>testId := Some (js ''T'')\<rparr> = t1_decoded"
    then have "testId (t1_decoded\<lparr>testId := Some (js ''T'')\<rparr>) = testId t1_decoded" by simp
    then show False by (simp add: example_defs)
  qed
  with t1_whole t1_first_six t1_rest show ?thesis by blast
qed

text \<open>
  Claim C3, at the first five bytes of the same packet: the buffer ends before the test
  id's bytes, so the packet is incomplete, yet the call pushes a Record (with an empty
  test id) and moves the cursor from 0 to 11, past the end of the buffer.
\<close>

theorem incomplete_packet_is_pushed:
  "length (take 5 t1_packet) < length t1_packet
   \<and> readVarInt (take 5 t1_packet) 3 = Inr (1, 11)
   \<and> SubunitToObjectStream_transform (SubunitToObjectStream True) (take 5 t1_packet) =
     Some (\<lparr> bl = take 5 t1_packet, offset = 11, error_listener = True \<rparr>,
           [Data (t1_decoded\<lparr>testId := Some []\<rparr>)], None)"
proof -
  have "readVarInt (take 5 t1_packet) 3 = Inr (1, 11)"
    unfolding t1_prefix5 by (simp add: read_defs)
  with t1_first_five show ?thesis by (simp add: length_t1_packet)
qed

section \<open>A byte that is not the signature (claim C7)\<close>

text \<open>
  Claim C7 fails at the packet of \<open>{}\<close> behind one zero byte. Alone, the packet gives its
  Record. Behind the stray byte, a stream with an \<open>'error'\<close> listener reports the bad
  packet, reads the bytes at the same cursor as a packet, runs out of bytes and waits
  with the cursor still on the stray byte: no Record is pushed. A stream without a
  listener throws.
\<close>

theorem stray_byte_hides_packet:
  "SubunitToObjectStream_transform (SubunitToObjectStream True) empty_packet =
     Some (\<lparr> bl = empty_packet, offset = 8, error_listener = True \<rparr>, [Data empty_decoded], None)
   \<and> SubunitToObjectStream_transform (SubunitToObjectStream True) (0x00 # empty_packet) =
     Some (\<lparr> bl = 0x00 # empty_packet, offset = 0, error_listener = True \<rparr>, [BadPacket 0], None)
   \<and> SubunitToObjectStream_transform (SubunitToObjectStream False) (0x00 # empty_packet) =
     Some (\<lparr> bl = 0x00 # empty_packet, offset = 0, error_listener = False \<rparr>, [],
           Some UncaughtErrorEvent)"
  using empty_whole stray_listening stray_not_listening by blast

text \<open>
  Claim C7 as amended. When the byte at the cursor is not the signature and the flag and
  length fields can be read, a stream with an \<open>'error'\<close> listener emits the bad-packet
  event and goes on with the bytes at the same cursor: it either pushes the Record it
  reads there and moves the cursor by the length read there, or waits for more bytes; it
  never throws. A stream without a listener throws.
\<close>

theorem bad_signature_is_reported:
  assumes "readUInt8 (bl d) (offset d) = Inr sig" and "sig \<noteq> signature"
    and "readUInt16BE (bl d) (offset d + 1) = Inr flags"
    and "readVarInt (bl d) (offset d + 3) = Inr pl"
  shows "decode_step d =
     (if error_listener d then
        (case read_record (bl d) (offset d) flags pl of
           Inl e \<Rightarrow> Wait [BadPacket (offset d)]
         | Inr ret \<Rightarrow> Next [BadPacket (offset d), Data ret] (d\<lparr>offset := offset d + snd pl\<rparr>))
      else Throw [] UncaughtErrorEvent)"
proof (cases "read_record (bl d) (offset d) flags pl")
  case (Inl e)
  then have "e = RangeError" by (rule read_record_Inl)
  with Inl assms show ?thesis by (simp add: decode_step_def caught_def)
next
  case (Inr ret)
  with assms show ?thesis by (simp add: decode_step_def caught_def)
qed

theorem bad_signature_is_reported_witness:
  "readUInt8 (0x00 # empty_packet) 0 = Inr 0 \<and> 0 \<noteq> signature
   \<and> readUInt16BE (0x00 # empty_packet) 1 = Inr 0xB320
   \<and> readVarInt (0x00 # empty_packet) 3 = Inr (1, 0)
   \<and> read_record (0x00 # empty_packet) 0 0xB320 (1, 0) = Inl RangeError
   \<and> decode_step \<lparr> bl = 0x00 # empty_packet, offset = 0, error_listener = True \<rparr> =
       Wait [BadPacket 0]"
proof -
  obtain a b c d where crc: "crc32 empty_partial = [a, b, c, d]" using crc32_bytes by blast
  have p: "empty_packet = [0xB3, 0x20, 0x00, 0x08, a, b, c, d]"
    by (simp add: empty_packet_def crc) (simp add: empty_partial_def)
  let ?d = "\<lparr> bl = 0x00 # empty_packet, offset = 0, error_listener = True \<rparr>"
  have 1: "readUInt8 (bl ?d) (offset ?d) = Inr 0" unfolding p by (simp add: read_defs)
  have 2: "0 \<noteq> signature" by (simp add: signature_def)
  have 3: "readUInt16BE (bl ?d) (offset ?d + 1) = Inr 0xB320" unfolding p by (simp add: read_defs)
  have 4: "readVarInt (bl ?d) (offset ?d + 3) = Inr (1, 0)" unfolding p by (simp add: read_defs)
  have 5: "read_record (bl ?d) (offset ?d) 0xB320 (1, 0) = Inl RangeError"
    unfolding p by (simp add: read_defs record_defs utf8_defs bindE_def)
  have "decode_step ?d = Wait [BadPacket 0]"
    unfolding bad_signature_is_reported [OF 1 2 3 4] 5 by simp
  with 1 2 3 4 5 show ?thesis by simp
qed

section \<open>The length field (claim C4)\<close>

text \<open>
  Claim C4 fails at the packet of \<open>{}\<close>, which has eight bytes: the encoder writes 8 in the
  length field, not the 5 bytes from the length field to the end of the checksum; and
  the decoder moves the cursor from 0 to 8, the value of the field, not to that value
  plus 3.
\<close>

theorem length_field_counts_header:
  "ObjectToSubunitStream_transform empty_record = Inr empty_packet
   \<and> length empty_packet = 8 \<and> length (drop 3 empty_packet) = 5
   \<and> readVarInt empty_packet 3 = Inr (1, 8)
   \<and> SubunitToObjectStream_transform (SubunitToObjectStream True) empty_packet =
       Some (\<lparr> bl = empty_packet, offset = 8, error_listener = True \<rparr>, [Data empty_decoded], None)"
  using empty_packet_encodes empty_length_field empty_whole
  by (simp add: length_empty_packet)

text \<open>
  Claim C4 as amended. The value of the length field is the size of the whole packet, from
  the signature to the end of the checksum: the encoder writes exactly that for every
  Record it encodes, and after a packet the decoder moves the cursor by the value of the
  length field.
\<close>

theorem length_field_is_packet_size:
  "(ObjectToSubunitStream_transform chunk = Inr bytes \<longrightarrow>
      (\<exists>n. readVarInt bytes 3 = Inr (n, length bytes)))
   \<and> (decode_step d = Next es d' \<longrightarrow>
      (\<exists>n v. readVarInt (bl d) (offset d + 3) = Inr (n, v) \<and> offset d' = offset d + v))"
proof (intro conjI impI)
  assume "ObjectToSubunitStream_transform chunk = Inr bytes"
  then show "\<exists>n. readVarInt bytes 3 = Inr (n, length bytes)" by (rule transform_length_field)
next
  assume "decode_step d = Next es d'"
  then obtain pl where "readVarInt (bl d) (offset d + 3) = Inr pl"
    "d' = d\<lparr>offset := offset d + snd pl\<rparr>"
    by (rule decode_step_Next)
  then show "\<exists>n v. readVarInt (bl d) (offset d + 3) = Inr (n, v) \<and> offset d' = offset d + v"
    by (cases pl) simp
qed

theorem length_field_is_packet_size_witness:
  "ObjectToSubunitStream_transform t1_record = Inr t1_packet
   \<and> (\<exists>n. readVarInt t1_packet 3 = Inr (n, length t1_packet))
   \<and> decode_step \<lparr> bl = t1_packet, offset = 0, error_listener = True \<rparr> =
        Next [Data t1_decoded] \<lparr> bl = t1_packet, offset = 11, error_listener = True \<rparr>
   \<and> (\<exists>n. readVarInt t1_packet 3 = Inr (n, 11))"
proof -
  obtain a b c d where crc: "crc32 t1_partial = [a, b, c, d]" using crc32_bytes by blast
  have p: "t1_packet = [0xB3, 0x28, 0x00, 0x0B, 0x02, 0x54, 0x31, a, b, c, d]"
    by (simp add: t1_packet_def crc) (simp add: t1_partial_def)
  let ?d = "\<lparr> bl = t1_packet, offset = 0, error_listener = True \<rparr>"
  let ?d' = "\<lparr> bl = t1_packet, offset = 11, error_listener = True \<rparr>"
  have s: "decode_step ?d = Next [Data t1_decoded] ?d'"
    unfolding p by (simp add: step_defs example_defs)
  from length_field_is_packet_size [of t1_record t1_packet ?d "[Data t1_decoded]" ?d']
    t1_packet_encodes s
  show ?thesis by simp
qed

section \<open>Lemmas: UTF-8\<close>

lemma tagged: "q < B \<Longrightarrow> (T * B + q) div B = T \<and> (T * B + q) mod B = (q::nat)"
  by simp

lemma lead2: "q < 32 \<Longrightarrow> (192 + q) mod 256 = 192 + q \<and> (192 + q) div 32 = 6 \<and> (192 + q) mod 32 = (q::nat)"
  using tagged [of q 32 6] by simp

lemma lead3: "q < 16 \<Longrightarrow> (224 + q) mod 256 = 224 + q \<and> (224 + q) div 32 = 7 \<and> (224 + q) div 16 = 14
     \<and> (224 + q) mod 16 = (q::nat)"
  using tagged [of q 16 14] tagged [of "q + 0" 32 7] by simp

lemma lead4: "q < 8 \<Longrightarrow> (240 + q) mod 256 = 240 + q \<and> (240 + q) div 32 = 7 \<and> (240 + q) div 16 = 15
     \<and> (240 + q) div 8 = 30 \<and> (240 + q) mod 8 = (q::nat)"
  using tagged [of q 8 30] tagged [of "q + 16" 32 7] tagged [of "q" 16 15] by simp

lemma cont: "r < 64 \<Longrightarrow> (128 + r) mod 256 = 128 + r \<and> (128 + r) div 64 = 2 \<and> (128 + r) mod 64 = (r::nat)"
  using tagged [of r 64 2] by simp

lemma unat_cont_byte:
  assumes "r < 64"
  shows "is_cont (of_nat (128 + r))" "cont_bits (of_nat (128 + r)) = r"
  unfolding is_cont_def cont_bits_def unat_byte using cont [OF assms] by simp_all


lemma unat_byte_small: "k < 256 \<Longrightarrow> unat (of_nat k :: byte) = k"
  unfolding unat_byte by simp

lemma split64: "(c::nat) div 64 * 64 + c mod 64 = c"
  by simp

lemma div_64_64: "(c::nat) div 64 div 64 = c div 4096" "(c::nat) div 4096 div 64 = c div 262144"
  by (simp_all add: div_mult2_eq [symmetric])

lemma join3: "((c div 4096) * 64 + c div 64 mod 64) * 64 + c mod 64 = (c::nat)"
proof -
  have "(c div 4096) * 64 + c div 64 mod 64 = c div 64"
    using split64 [of "c div 64"] by (simp add: div_64_64)
  then show ?thesis by (simp only: split64)
qed

lemma join4: "(((c div 262144) * 64 + c div 4096 mod 64) * 64 + c div 64 mod 64) * 64 + c mod 64 = (c::nat)"
proof -
  have "(c div 262144) * 64 + c div 4096 mod 64 = c div 4096"
    using split64 [of "c div 4096"] by (simp add: div_64_64)
  then show ?thesis by (simp only: join3)
qed

text \<open>Decoding the bytes of one code point, whatever follows them.\<close>

lemma utf8_first_1:
  assumes "c < 0x80"
  shows "utf8_first (of_nat c) rest = (c, 0)"
  using assms by (simp add: utf8_first_def unat_byte_small)

lemma utf8_first_2:
  assumes "0x80 \<le> c" "c < 0x800"
  shows "utf8_first (of_nat (0xC0 + c div 64)) (of_nat (0x80 + c mod 64) # rest) = (c, 1)"
proof -
  have q: "c div 64 < 32" using assms by (simp add: div_less_iff_less_mult)
  have r: "c mod 64 < 64" by simp
  note l = lead2 [OF q]
  have a: "unat (of_nat (192 + c div 64) :: byte) = 192 + c div 64"
    unfolding unat_byte using l by simp
  show ?thesis
    unfolding utf8_first_def Let_def a
    using l assms unat_cont_byte [OF r] by (simp add: split64)
qed

lemma utf8_first_3_bytes:
  assumes "unat b0 = 224 + q" "q < 16" "is_cont b1" "is_cont b2"
    and "(q * 64 + cont_bits b1) * 64 + cont_bits b2 = cp"
    and "0x800 \<le> cp" "\<not> (0xD800 \<le> cp \<and> cp < 0xE000)"
  shows "utf8_first b0 (b1 # b2 # rest) = (cp, 2)"
  unfolding utf8_first_def Let_def assms(1)
  using lead3 [OF assms(2)] assms(3-) by simp

lemma utf8_first_4_bytes:
  assumes "unat b0 = 240 + q" "q < 8" "is_cont b1" "is_cont b2" "is_cont b3"
    and "((q * 64 + cont_bits b1) * 64 + cont_bits b2) * 64 + cont_bits b3 = cp"
    and "0x10000 \<le> cp" "cp < 0x110000"
  shows "utf8_first b0 (b1 # b2 # b3 # rest) = (cp, 3)"
  unfolding utf8_first_def Let_def assms(1)
  using lead4 [OF assms(2)] assms(3-) by simp

lemma utf8_first_3:
  assumes "0x800 \<le> c" "c < 0x10000" "\<not> (0xD800 \<le> c \<and> c < 0xE000)"
  shows "utf8_first (of_nat (0xE0 + c div 4096))
           (of_nat (0x80 + c div 64 mod 64) # of_nat (0x80 + c mod 64) # rest) = (c, 2)"
proof -
  have q: "c div 4096 < 16" using assms by (simp add: div_less_iff_less_mult)
  have r: "c div 64 mod 64 < 64" "c mod 64 < 64" by simp_all
  have a: "unat (of_nat (224 + c div 4096) :: byte) = 224 + c div 4096"
    unfolding unat_byte using lead3 [OF q] by simp
  have j: "(c div 4096 * 64 + cont_bits (of_nat (128 + c div 64 mod 64))) * 64
             + cont_bits (of_nat (128 + c mod 64)) = c"
    by (simp only: unat_cont_byte [OF r(1)] unat_cont_byte [OF r(2)] join3)
  show ?thesis
    using a q unat_cont_byte(1) [OF r(1)] unat_cont_byte(1) [OF r(2)] j assms(1,3)
    by (rule utf8_first_3_bytes)
qed

lemma utf8_first_4:
  assumes "0x10000 \<le> c" "c < 0x110000"
  shows "utf8_first (of_nat (0xF0 + c div 262144))
           (of_nat (0x80 + c div 4096 mod 64) # of_nat (0x80 + c div 64 mod 64)
              # of_nat (0x80 + c mod 64) # rest) = (c, 3)"
proof -
  have q: "c div 262144 < 8" using assms by (simp add: div_less_iff_less_mult)
  have r: "c div 4096 mod 64 < 64" "c div 64 mod 64 < 64" "c mod 64 < 64" by simp_all
  have a: "unat (of_nat (240 + c div 262144) :: byte) = 240 + c div 262144"
    unfolding unat_byte using lead4 [OF q] by simp
  have j: "((c div 262144 * 64 + cont_bits (of_nat (128 + c div 4096 mod 64))) * 64
             + cont_bits (of_nat (128 + c div 64 mod 64))) * 64
             + cont_bits (of_nat (128 + c mod 64)) = c"
    by (simp only: unat_cont_byte [OF r(1)] unat_cont_byte [OF r(2)] unat_cont_byte [OF r(3)]
        join4)
  show ?thesis
    using a q unat_cont_byte(1) [OF r(1)] unat_cont_byte(1) [OF r(2)]
      unat_cont_byte(1) [OF r(3)] j assms
    by (rule utf8_first_4_bytes)
qed

lemma drop_lead: "drop 0 r = r" "drop 1 (a # r) = r" "drop 2 (a # b # r) = r"
  "drop 3 (a # b # c # r) = r"
  by simp_all

lemma utf8_decode_cp:
  assumes "scalar c"
  shows "utf8_decode (utf8_of_cp c @ rest) = cp_units c @ utf8_decode rest"
proof -
  consider (1) "c < 0x80" | (2) "0x80 \<le> c" "c < 0x800" | (3) "0x800 \<le> c" "c < 0x10000"
    | (4) "0x10000 \<le> c" by linarith
  then show ?thesis
  proof cases
    case 1
    have e: "utf8_of_cp c = [of_nat c]" using 1 unfolding utf8_of_cp_def by simp
    show ?thesis unfolding e
      by (simp only: append.simps utf8_decode.simps utf8_first_1 [OF 1] prod.case drop_lead)
  next
    case 2
    have e: "utf8_of_cp c = [of_nat (0xC0 + c div 64), of_nat (0x80 + c mod 64)]"
      using 2 unfolding utf8_of_cp_def by simp
    show ?thesis unfolding e
      by (simp only: append.simps utf8_decode.simps utf8_first_2 [OF 2] prod.case drop_lead)
  next
    case 3
    have s: "\<not> (0xD800 \<le> c \<and> c < 0xE000)" using assms by (simp add: scalar_def)
    have e: "utf8_of_cp c = [of_nat (0xE0 + c div 4096), of_nat (0x80 + c div 64 mod 64),
                of_nat (0x80 + c mod 64)]"
      using 3 unfolding utf8_of_cp_def by simp
    show ?thesis unfolding e
      by (simp only: append.simps utf8_decode.simps utf8_first_3 [OF 3 s] prod.case drop_lead)
  next
    case 4
    have s: "c < 0x110000" using assms by (simp add: scalar_def)
    have e: "utf8_of_cp c = [of_nat (0xF0 + c div 262144), of_nat (0x80 + c div 4096 mod 64),
         of_nat (0x80 + c div 64 mod 64), of_nat (0x80 + c mod 64)]"
      using 4 unfolding utf8_of_cp_def by simp
    show ?thesis unfolding e
      by (simp only: append.simps utf8_decode.simps utf8_first_4 [OF 4 s] prod.case drop_lead)
  qed
qed

lemma unat_unit_bound: "unat (u :: 16 word) < 65536"
  using unsigned_less [of u, where ?'a = nat] by simp

lemma unit_scalar:
  assumes "\<not> is_high u" "\<not> is_low u"
  shows "scalar (unit_cp u)" "cp_units (unit_cp u) = [u]"
proof -
  have c: "unit_cp u = unat u" using assms by (simp add: unit_cp_def)
  show "scalar (unit_cp u)"
    using assms unat_unit_bound [of u] unfolding c scalar_def is_high_def is_low_def by linarith
  show "cp_units (unit_cp u) = [u]"
    unfolding c cp_units_def using unat_unit_bound [of u] by simp
qed

lemma pair_scalar:
  assumes "is_high h" "is_low l"
  shows "scalar (pair_cp h l)" "cp_units (pair_cp h l) = [h, l]"
proof -
  define hh where "hh = unat h - 0xD800"
  define ll where "ll = unat l - 0xDC00"
  have h: "unat h = 0xD800 + hh" "hh < 1024"
    using assms(1) unfolding is_high_def hh_def by linarith+
  have l: "unat l = 0xDC00 + ll" "ll < 1024"
    using assms(2) unfolding is_low_def ll_def by linarith+
  have c: "pair_cp h l = 0x10000 + (hh * 1024 + ll)" by (simp add: pair_cp_def hh_def ll_def)
  have b: "hh * 1024 + ll < 1048576" using h(2) l(2) by linarith
  show "scalar (pair_cp h l)" unfolding c scalar_def using b by simp
  have d: "(hh * 1024 + ll) div 1024 = hh" "(hh * 1024 + ll) mod 1024 = ll"
    using tagged [OF l(2), of hh] by simp_all
  have m: "0x10000 + (hh * 1024 + ll) - 0x10000 = hh * 1024 + ll"
    and n: "\<not> 0x10000 + (hh * 1024 + ll) < (0x10000::nat)" by simp_all
  have "cp_units (pair_cp h l) = [of_nat (0xD800 + hh), of_nat (0xDC00 + ll)]"
    unfolding c cp_units_def by (simp only: m n d if_False)
  also have "\<dots> = [h, l]" by (simp only: h(1) [symmetric] l(1) [symmetric]) simp
  finally show "cp_units (pair_cp h l) = [h, l]" .
qed

text \<open>Decoding inverts encoding on every string without an unpaired surrogate.\<close>

lemma utf8_decode_encode:
  "well_formed s \<Longrightarrow> utf8_decode (utf8_encode s @ rest) = s @ utf8_decode rest"
proof (induction s rule: utf8_encode.induct)
  case 1
  show ?case by simp
next
  case (2 u)
  then have "\<not> is_high u" "\<not> is_low u" by simp_all
  from unit_scalar [OF this] show ?case by (simp add: utf8_decode_cp)
next
  case (3 u l us)
  show ?case
  proof (cases "is_high u")
    case True
    with 3(3) have l: "is_low l" and w: "well_formed us" by simp_all
    from pair_scalar [OF True l] 3(1) [OF _ w] True l
    show ?thesis by (simp add: utf8_decode_cp)
  next
    case False
    with 3(3) have n: "\<not> is_low u" and w: "well_formed (l # us)" by simp_all
    from unit_scalar [OF False n] 3(2) [OF _ w] False
    show ?thesis by (simp add: utf8_decode_cp)
  qed
qed

lemma utf8_round_trip_bytes: "well_formed s \<Longrightarrow> utf8_decode (utf8_encode s) = s"
  using utf8_decode_encode [of s "[]"] by simp

lemma slice_middle: "slice (pre @ xs @ post) (length pre) (length pre + length xs) = xs"
  by (simp add: slice_def)

lemma writeUtf8_Inr:
  assumes "writeUtf8 s = Inr bs"
  obtains num where "writeVarInt (int (length (utf8_encode s))) = Inr num"
    "bs = num @ utf8_encode s"
  using assms unfolding writeUtf8_def Let_def by (auto dest!: bindE_Inr)

text \<open>Reading a written string back, wherever it lies in a buffer.\<close>

lemma readUtf8_writeUtf8:
  assumes "writeUtf8 s = Inr bs" "well_formed s"
  shows "readUtf8 (pre @ bs @ post) (length pre) = Inr (length bs, s)"
proof -
  from assms(1) obtain num where
    n: "writeVarInt (int (length (utf8_encode s))) = Inr num" and
    bs: "bs = num @ utf8_encode s"
    by (rule writeUtf8_Inr)
  have v: "readVarInt (pre @ num @ (utf8_encode s @ post)) (length pre)
             = Inr (length num, length (utf8_encode s))"
    using n by (rule readVarInt_writeVarInt)
  have s: "slice ((pre @ num) @ utf8_encode s @ post) (length (pre @ num))
             (length (pre @ num) + length (utf8_encode s)) = utf8_encode s"
    by (rule slice_middle)
  show ?thesis
    unfolding readUtf8_def bs using v s
    by (simp add: utf8_round_trip_bytes [OF assms(2)])
qed

lemma utf8_encode_not_high:
  "\<not> is_high u \<Longrightarrow> utf8_encode (u # us) = utf8_of_cp (unit_cp u) @ utf8_encode us"
  by (cases us) simp_all

lemma euro_bytes: "utf8_encode (replicate n 0x20AC) = concat (replicate n [0xE2, 0x82, 0xAC])"
proof (induction n)
  case 0
  show ?case by simp
next
  case (Suc n)
  have h: "\<not> is_high 0x20AC" by (simp add: is_high_def)
  have c: "utf8_of_cp (unit_cp 0x20AC) = [0xE2, 0x82, 0xAC]"
    by (simp add: unit_cp_def is_high_def is_low_def utf8_of_cp_def)
  show ?case using Suc by (simp add: utf8_encode_not_high [OF h] c)
qed

lemma length_euro_bytes: "length (utf8_encode (replicate n 0x20AC)) = 3 * n"
  unfolding euro_bytes by (induction n) simp_all

section \<open>Strings (claim C6)\<close>

text \<open>
  Claim C6 fails at two strings. The string of the single code unit \<open>0xD800\<close>, a
  surrogate without its partner, is written as the three bytes of U+FFFD and read back
  as U+FFFD. The string of 357913942 euro signs has 1073741826 bytes in UTF-8, which
  \<open>writeVarInt\<close> refuses, so \<open>writeUtf8\<close> throws.
\<close>

theorem utf8_round_trip_fails:
  "writeUtf8 [0xD800] = Inr [0x03, 0xEF, 0xBF, 0xBD]
   \<and> readUtf8 [0x03, 0xEF, 0xBF, 0xBD] 0 = Inr (4, [0xFFFD])
   \<and> writeUtf8 (replicate 357913942 0x20AC) = Inl ValueTooLarge"
proof -
  have 1: "writeUtf8 [0xD800] = Inr [0x03, 0xEF, 0xBF, 0xBD]"
    by (simp add: writeUtf8_def writeVarInt_def writeUIntBE_def unit_cp_def is_high_def
        utf8_of_cp_def be_bytes_Suc_0 del: be_bytes.simps)
  have 2: "readUtf8 [0x03, 0xEF, 0xBF, 0xBD] 0 = Inr (4, [0xFFFD])"
    by (simp add: read_defs utf8_defs)
  have 3: "writeUtf8 (replicate 357913942 0x20AC) = Inl ValueTooLarge"
    unfolding writeUtf8_def Let_def length_euro_bytes by (simp add: writeVarInt_def)
  from 1 2 3 show ?thesis by blast
qed

text \<open>
  Claim C6 as amended. For every string \<open>s\<close> in which every surrogate belongs to a pair and
  whose UTF-8 encoding has fewer than \<open>2 ^ 30\<close> bytes, \<open>writeUtf8\<close> returns the varint of
  the byte length followed by the UTF-8 bytes, and \<open>readUtf8\<close> returns \<open>s\<close> from them,
  with a consumed length of the prefix's length plus the byte length. The empty string
  is written as the single byte 0.
\<close>

theorem utf8_string_round_trip:
  assumes "well_formed s" and "length (utf8_encode s) < 1073741824"
  shows "(\<exists>num. writeVarInt (int (length (utf8_encode s))) = Inr num
            \<and> writeUtf8 s = Inr (num @ utf8_encode s)
            \<and> readUtf8 (num @ utf8_encode s) 0 = Inr (length num + length (utf8_encode s), s))
         \<and> writeUtf8 [] = Inr [0x00]"
proof
  from varint_ctx [OF assms(2)] obtain num where
    n: "writeVarInt (int (length (utf8_encode s))) = Inr num" by blast
  then have w: "writeUtf8 s = Inr (num @ utf8_encode s)" by (simp add: writeUtf8_def)
  have "readUtf8 ([] @ (num @ utf8_encode s) @ []) (length ([] :: buffer))
          = Inr (length (num @ utf8_encode s), s)"
    using w assms(1) by (rule readUtf8_writeUtf8)
  then have "readUtf8 (num @ utf8_encode s) 0 = Inr (length num + length (utf8_encode s), s)"
    by simp
  with n w show "\<exists>num. writeVarInt (int (length (utf8_encode s))) = Inr num
            \<and> writeUtf8 s = Inr (num @ utf8_encode s)
            \<and> readUtf8 (num @ utf8_encode s) 0 = Inr (length num + length (utf8_encode s), s)"
    by blast
next
  show "writeUtf8 [] = Inr [0x00]"
    by (simp add: writeUtf8_def writeVarInt_def writeUIntBE_def be_bytes_Suc_0
        del: be_bytes.simps)
qed

theorem utf8_string_round_trip_witness:
  "well_formed euro_grin \<and> length euro_grin = 3
   \<and> utf8_encode euro_grin = [0xE2, 0x82, 0xAC, 0xF0, 0x9F, 0x98, 0x80]
   \<and> writeUtf8 euro_grin = Inr [0x07, 0xE2, 0x82, 0xAC, 0xF0, 0x9F, 0x98, 0x80]
   \<and> readUtf8 [0x07, 0xE2, 0x82, 0xAC, 0xF0, 0x9F, 0x98, 0x80] 0 = Inr (8, euro_grin)"
proof -
  have 1: "well_formed euro_grin" by (simp add: euro_grin_def is_high_def is_low_def)
  have 2: "utf8_encode euro_grin = [0xE2, 0x82, 0xAC, 0xF0, 0x9F, 0x98, 0x80]"
    by (simp add: euro_grin_def string_defs)
  have 3: "length (utf8_encode euro_grin) < 1073741824" by (simp add: 2)
  have 4: "writeVarInt 7 = Inr [0x07]"
    by (simp add: writeVarInt_def writeUIntBE_def be_bytes_Suc_0 del: be_bytes.simps)
  from utf8_string_round_trip [OF 1 3] 1 4 show ?thesis
    by (simp add: 2) (simp add: euro_grin_def)
qed

section \<open>Record round trip (claim C1)\<close>

text \<open>
  A natural number below \<open>2 ^ 53\<close> is a double, so the decoder's sum is exact when the
  nanoseconds are a whole number of milliseconds.
\<close>

lemma bit_len_le: "n < 2 ^ k \<Longrightarrow> bit_len n \<le> k"
proof (induction k arbitrary: n)
  case 0
  then have "n = 0" by simp
  then show ?case by (simp add: bit_len.simps)
next
  case (Suc k)
  show ?case
  proof (cases "n = 0")
    case True
    then show ?thesis by (simp add: bit_len.simps)
  next
    case False
    have "n div 2 < 2 ^ k" using Suc.prems by simp
    then have "bit_len (n div 2) \<le> k" by (rule Suc.IH)
    moreover have "bit_len n = Suc (bit_len (n div 2))"
      using False by (subst bit_len.simps) simp
    ultimately show ?thesis by simp
  qed
qed

lemma round_even_of_int: "round_even (of_int m) = m"
  by (simp add: round_even_def)

lemma to_double_nat:
  assumes "n < 2 ^ 53"
  shows "to_double (of_nat n) = of_nat n"
proof (cases "n = 0")
  case True
  then show ?thesis by (simp add: to_double_def)
next
  case False
  define j where "j = 53 - bit_len n"
  have le: "bit_len n \<le> 53" using assms by (rule bit_len_le)
  have one: "(1::rat) \<le> of_nat n" using False by simp
  have "binade (of_nat n) = int (bit_len n) - 1"
    using one by (simp add: binade_def)
  then have e: "binade (of_nat n) - 52 = - int j" using le by (simp add: j_def)
  have u: "pow2 (- int j) = 1 / 2 ^ j"
    by (cases "j = 0") (simp_all add: pow2_def)
  have q: "(of_nat n :: rat) / (1 / 2 ^ j) = of_int (int (n * 2 ^ j))" by simp
  have "to_double (of_nat n) = of_int (round_even (of_nat n / (1 / 2 ^ j))) * (1 / 2 ^ j)"
    using False by (simp add: to_double_def e u Let_def)
  also have "\<dots> = of_int (int (n * 2 ^ j)) * (1 / 2 ^ j)"
    by (simp only: q round_even_of_int)
  also have "\<dots> = of_nat n" by simp
  finally show ?thesis .
qed

lemma date_value_whole:
  assumes "s * 1000 + k < 2 ^ 53"
  shows "date_value s (k * 1000000) = int (s * 1000 + k)"
proof -
  have k: "k < 2 ^ 53" using assms by simp
  have "(of_nat (k * 1000000) :: rat) / 1000000 = of_nat k" by simp
  then have "date_value s (k * 1000000) =
      \<lfloor>to_double (of_nat (s * 1000) + to_double (of_nat k))\<rfloor>"
    by (simp only: date_value_def)
  also have "\<dots> = \<lfloor>to_double (of_nat (s * 1000) + of_nat k)\<rfloor>"
    by (simp only: to_double_nat [OF k])
  also have "\<dots> = \<lfloor>to_double (of_nat (s * 1000 + k))\<rfloor>" by (simp only: of_nat_add)
  also have "\<dots> = \<lfloor>(of_nat (s * 1000 + k) :: rat)\<rfloor>" by (simp only: to_double_nat [OF assms])
  also have "\<dots> = int (s * 1000 + k)" by (rule floor_of_nat)
  finally show ?thesis .
qed

lemma readUInt32BE_be_bytes:
  assumes "s < 4294967296"
  shows "readUInt32BE (pre @ be_bytes 4 (int s) @ post) (length pre) = Inr s"
proof -
  have "s < 256 ^ 4" using assms by simp
  then have v: "be_value (be_bytes 4 (int s)) = s" by (rule be_value_be_bytes)
  have "slice (pre @ be_bytes 4 (int s) @ post) (length pre)
          (length pre + length (be_bytes 4 (int s))) = be_bytes 4 (int s)"
    by (rule slice_middle)
  then have "slice (pre @ be_bytes 4 (int s) @ post) (length pre) (length pre + 4)
      = be_bytes 4 (int s)"
    by (simp only: length_be_bytes)
  then show ?thesis
    unfolding readUInt32BE_def readUIntBE_def by (simp add: v length_be_bytes)
qed

lemma timestamp_split:
  assumes "0 \<le> millis"
  obtains s k where "millis = int (s * 1000 + k)" "k < 1000" "millis div 1000 = int s"
    "timestamp_nanos millis = int (k * 1000000)"
proof -
  define s where "s = nat (millis div 1000)"
  define k where "k = nat (millis mod 1000)"
  have d: "0 \<le> millis div 1000" using assms by simp
  have m: "0 \<le> millis mod 1000" "millis mod 1000 < 1000" by simp_all
  have 1: "millis div 1000 = int s" using d by (simp add: s_def)
  have 2: "millis mod 1000 = int k" using m by (simp add: k_def)
  have "millis = millis div 1000 * 1000 + millis mod 1000" by simp
  then have 3: "millis = int (s * 1000 + k)" unfolding 1 2 by simp
  have 4: "k < 1000" using m by (simp add: k_def)
  have 5: "timestamp_nanos millis = int (k * 1000000)"
    unfolding timestamp_nanos_mod 2 by simp
  from 3 4 1 5 show ?thesis by (rule that)
qed

lemma read_timestamp_written:
  assumes "0 \<le> millis" "millis < 4294967296000"
    and "writeVarInt (timestamp_nanos millis) = Inr vn"
  shows "read_timestamp (pre @ be_bytes 4 (millis div 1000) @ vn @ post) (ret, length pre) =
           Inr (ret\<lparr>timestamp := Some millis\<rparr>, length pre + 4 + length vn)"
proof -
  from assms(1) obtain s k where
    m: "millis = int (s * 1000 + k)" and k: "k < 1000" and d: "millis div 1000 = int s" and
    n: "timestamp_nanos millis = int (k * 1000000)"
    by (rule timestamp_split)
  have s: "s < 4294967296" using assms(2) d by linarith
  have r1: "readUInt32BE (pre @ be_bytes 4 (int s) @ (vn @ post)) (length pre) = Inr s"
    using s by (rule readUInt32BE_be_bytes)
  have w: "writeVarInt (int (k * 1000000)) = Inr vn" using assms(3) unfolding n .
  have "readVarInt ((pre @ be_bytes 4 (int s)) @ vn @ post) (length (pre @ be_bytes 4 (int s)))
      = Inr (length vn, k * 1000000)"
    using w by (rule readVarInt_writeVarInt)
  then have r2: "readVarInt (pre @ be_bytes 4 (int s) @ vn @ post) (length pre + 4)
      = Inr (length vn, k * 1000000)"
    by (simp add: length_be_bytes)
  have "s * 1000 + k < 2 ^ 53" using s k by simp
  then have v: "date_value s (k * 1000000) = millis" unfolding m by (rule date_value_whole)
  show ?thesis
    unfolding d by (simp add: read_timestamp_def r1 r2 v)
qed

text \<open>Reading the optional fields back from the bytes the encoder wrote for them.\<close>

lemma read_testId_written:
  assumes "writeUtf8 s = Inr bs" "well_formed s"
  shows "read_testId (pre @ bs @ post) (ret, length pre) =
           Inr (ret\<lparr>testId := Some s\<rparr>, length pre + length bs)"
  by (simp add: read_testId_def readUtf8_writeUtf8 [OF assms])

lemma encode_tag_list_Cons:
  assumes "encode_tag_list (t # ts) = Inr bs"
  obtains b bs' where "writeUtf8 t = Inr b" "encode_tag_list ts = Inr bs'" "bs = b @ bs'"
  using assms by (auto dest!: bindE_Inr)

lemma read_tag_list_written:
  assumes "encode_tag_list ts = Inr bs" "list_all well_formed ts"
  shows "read_tag_list (pre @ bs @ post) (length pre) (length ts) =
           Inr (ts, length pre + length bs)"
  using assms
proof (induction ts arbitrary: pre bs)
  case Nil
  then show ?case by simp
next
  case (Cons t ts)
  from Cons.prems(1) obtain b bs' where
    b: "writeUtf8 t = Inr b" and r: "encode_tag_list ts = Inr bs'" and bs: "bs = b @ bs'"
    by (rule encode_tag_list_Cons)
  have wf: "well_formed t" "list_all well_formed ts" using Cons.prems(2) by simp_all
  have 1: "readUtf8 (pre @ b @ (bs' @ post)) (length pre) = Inr (length b, t)"
    using b wf(1) by (rule readUtf8_writeUtf8)
  have 2: "read_tag_list ((pre @ b) @ bs' @ post) (length (pre @ b)) (length ts) =
      Inr (ts, length (pre @ b) + length bs')"
    using r wf(2) by (rule Cons.IH)
  from 1 2 show ?case by (simp add: bs)
qed

lemma read_tags_written:
  assumes "encode_tags ts = Inr bs" "list_all well_formed ts"
  shows "read_tags (pre @ bs @ post) (ret, length pre) =
           Inr (ret\<lparr>tags := Some ts\<rparr>, length pre + length bs)"
proof -
  from assms(1) obtain n bs' where
    n: "writeVarInt (int (length ts)) = Inr n" and r: "encode_tag_list ts = Inr bs'" and
    bs: "bs = n @ bs'"
    unfolding encode_tags_def by (auto dest!: bindE_Inr)
  have 1: "readVarInt (pre @ n @ (bs' @ post)) (length pre) = Inr (length n, length ts)"
    using n by (rule readVarInt_writeVarInt)
  have 2: "read_tag_list ((pre @ n) @ bs' @ post) (length (pre @ n)) (length ts) =
      Inr (ts, length (pre @ n) + length bs')"
    using r assms(2) by (rule read_tag_list_written)
  from 1 2 show ?thesis by (simp add: read_tags_def bs)
qed

lemma sample_testId: "writeUtf8 (js ''T1'') = Inr [0x02, 0x54, 0x31]"
  by (simp add: writeUtf8_def writeVarInt_def writeUIntBE_def string_defs be_bytes_numeral
      be_bytes_Suc_0 del: be_bytes.simps)

lemma sample_tags: "encode_tags [js ''a'', js ''b''] = Inr [0x02, 0x01, 0x61, 0x01, 0x62]"
  by (simp add: encode_tags_def writeUtf8_def writeVarInt_def writeUIntBE_def string_defs
      be_bytes_numeral be_bytes_Suc_0 del: be_bytes.simps)

lemma sample_well_formed:
  "well_formed (js ''T1'')" "list_all well_formed [js ''a'', js ''b'']"
  by (simp_all add: string_defs)

lemma sample_flags: "encode_flags (sample_record millis) = 0x2A83"
  by (simp add: encode_flags_def set_mask_def meta_flag_def mask_defs status_code_values
      sample_record_def empty_record_def)

lemma sample_flag_bytes: "writeUIntBE (int 0x2A83) 2 = Inr [0x2A, 0x83]"
  by (simp add: writeUIntBE_def be_bytes_numeral be_bytes_Suc_0 del: be_bytes.simps)

lemma encode_timestamp_written:
  assumes "0 \<le> millis" "millis < 4294967296000"
  obtains vn where "writeVarInt (timestamp_nanos millis) = Inr vn"
    "encode_timestamp millis = Inr (be_bytes 4 (millis div 1000) @ vn)"
    "1 \<le> length vn" "length vn \<le> 4"
proof -
  obtain vn where vn: "writeVarInt (timestamp_nanos millis) = Inr vn"
    using writeVarInt_nanos by blast
  from assms(1) obtain s k where
    n: "timestamp_nanos millis = int (k * 1000000)"
    by (rule timestamp_split)
  have "length vn = (if k * 1000000 < 64 then 1 else if k * 1000000 < 16384 then 2
      else if k * 1000000 < 4194304 then 3 else 4)"
    using vn unfolding n by (rule writeVarInt_length)
  then have len: "1 \<le> length vn" "length vn \<le> 4" by (simp_all split: if_splits)
  have d: "0 \<le> millis div 1000" "millis div 1000 < 4294967296" using assms by simp_all
  then have "writeUIntBE (timestamp_seconds millis) 4 = Inr (be_bytes 4 (millis div 1000))"
    by (simp add: writeUIntBE_def timestamp_seconds_def)
  then have e: "encode_timestamp millis = Inr (be_bytes 4 (millis div 1000) @ vn)"
    by (simp add: encode_timestamp_def vn)
  from vn e len show ?thesis by (rule that)
qed


lemma sample_packet:
  assumes "0 \<le> millis" "millis < 4294967296000"
  obtains vn where "writeVarInt (timestamp_nanos millis) = Inr vn"
    "1 \<le> length vn" "length vn \<le> 4"
    "ObjectToSubunitStream_transform (sample_record millis) =
       Inr (([0xB3, 0x2A, 0x83, of_nat (20 + length vn)] @ be_bytes 4 (millis div 1000) @ vn
              @ [0x02, 0x54, 0x31] @ [0x02, 0x01, 0x61, 0x01, 0x62])
            @ crc32 ([0xB3, 0x2A, 0x83, of_nat (20 + length vn)] @ be_bytes 4 (millis div 1000)
              @ vn @ [0x02, 0x54, 0x31] @ [0x02, 0x01, 0x61, 0x01, 0x62]))"
proof -
  from assms obtain vn where
    vn: "writeVarInt (timestamp_nanos millis) = Inr vn" and
    ts: "encode_timestamp millis = Inr (be_bytes 4 (millis div 1000) @ vn)" and
    len: "1 \<le> length vn" "length vn \<le> 4"
    by (rule encode_timestamp_written)
  have body: "encode_body (sample_record millis) =
      Inr (be_bytes 4 (millis div 1000) @ vn @ [0x02, 0x54, 0x31] @ [0x02, 0x01, 0x61, 0x01, 0x62])"
    by (simp add: encode_body_def opt_field_def sample_record_def empty_record_def ts
        sample_testId sample_tags)
  have ll: "lengthLength (19 + length vn) = Inr 1"
    using len by (simp add: lengthLength_def)
  have lf: "writeVarInt (int (20 + length vn)) = Inr [of_nat (20 + length vn)]"
    using len by (intro writeVarInt_1) simp
  have sg: "writeUIntBE (int signature) (Suc 0) = Inr [0xB3]"
    using signature_byte by simp
  have fb: "writeUIntBE 10883 2 = Inr [0x2A, 0x83]"
    using sample_flag_bytes by simp
  have "ObjectToSubunitStream_transform (sample_record millis) =
       Inr (([0xB3, 0x2A, 0x83, of_nat (20 + length vn)] @ be_bytes 4 (millis div 1000) @ vn
              @ [0x02, 0x54, 0x31] @ [0x02, 0x01, 0x61, 0x01, 0x62])
            @ crc32 ([0xB3, 0x2A, 0x83, of_nat (20 + length vn)] @ be_bytes 4 (millis div 1000)
              @ vn @ [0x02, 0x54, 0x31] @ [0x02, 0x01, 0x61, 0x01, 0x62]))"
    using ll lf
    by (simp add: ObjectToSubunitStream_transform_def sample_flags body length_be_bytes sg fb
        add.commute)
  with vn len show ?thesis by (rule that)
qed

lemma sample_timestamp_out_of_range:
  assumes "millis < 0 \<or> 4294967296000 \<le> millis"
  shows "ObjectToSubunitStream_transform (sample_record millis) = Inl OutOfBounds"
proof -
  obtain vn where vn: "writeVarInt (timestamp_nanos millis) = Inr vn"
    using writeVarInt_nanos by blast
  have "millis div 1000 < 0 \<or> 4294967296 \<le> millis div 1000" using assms by linarith
  then have "writeUIntBE (timestamp_seconds millis) 4 = Inl OutOfBounds"
    by (auto simp add: writeUIntBE_def timestamp_seconds_def)
  then have "encode_timestamp millis = Inl OutOfBounds"
    by (simp add: encode_timestamp_def vn)
  then have "encode_body (sample_record millis) = Inl OutOfBounds"
    by (simp add: encode_body_def opt_field_def sample_record_def empty_record_def)
  then show ?thesis by (simp add: ObjectToSubunitStream_transform_def)
qed

text \<open>
  Claim C1 fails where the timestamp's whole seconds do not fit the four bytes of the
  seconds field. For \<open>new Date(-1)\<close>, one millisecond before 1970, \<open>seconds\<close> is \<open>-1\<close>;
  for \<open>new Date(4294967296000)\<close>, in the year 2106, it is \<open>2 ^ 32\<close>. \<open>writeUInt32BE\<close>
  refuses both, the encoder throws, and there are no bytes to decode.
\<close>

theorem round_trip_outside_seconds_field:
  "ObjectToSubunitStream_transform (sample_record (- 1)) = Inl OutOfBounds
   \<and> ObjectToSubunitStream_transform (sample_record 4294967296000) = Inl OutOfBounds"
  using sample_timestamp_out_of_range [of "- 1"] sample_timestamp_out_of_range [of 4294967296000]
  by simp

text \<open>
  Claim C1 as amended. For the Record with test id \<open>'T1'\<close>, status \<open>'success'\<close>, tags
  \<open>['a', 'b']\<close> and a timestamp from 1970-01-01T00:00:00.000Z to 2106-02-07T06:28:15.999Z
  (\<open>millis\<close> is its time value), the encoder returns a packet, and a fresh decoder given
  that packet pushes exactly one Record and ends with its cursor at the end of the packet.
  That Record has the four fields of the Record that was encoded, with the same values,
  no other field but \<open>_packet\<close>, and in \<open>_packet.flags\<close> the flags \<open>testId\<close>, \<open>timestamp\<close> and
  \<open>tags\<close> true and all the others false.
\<close>

theorem record_round_trip:
  assumes "0 \<le> millis" "millis < 4294967296000"
  shows "\<exists>bytes. ObjectToSubunitStream_transform (sample_record millis) = Inr bytes
     \<and> SubunitToObjectStream_transform (SubunitToObjectStream l) bytes =
         Some (\<lparr> bl = bytes, offset = length bytes, error_listener = l \<rparr>,
               [Data ((sample_record millis)\<lparr>packet := packet_of (length bytes)
                  (no_flags\<lparr>flag_testId := True, flag_timestamp := True,
                            flag_tags := True\<rparr>)\<rparr>)],
               None)"
proof -
  from assms obtain vn where
    vn: "writeVarInt (timestamp_nanos millis) = Inr vn" and
    len: "1 \<le> length vn" "length vn \<le> 4" and
    enc: "ObjectToSubunitStream_transform (sample_record millis) =
       Inr (([0xB3, 0x2A, 0x83, of_nat (20 + length vn)] @ be_bytes 4 (millis div 1000) @ vn
              @ [0x02, 0x54, 0x31] @ [0x02, 0x01, 0x61, 0x01, 0x62])
            @ crc32 ([0xB3, 0x2A, 0x83, of_nat (20 + length vn)] @ be_bytes 4 (millis div 1000)
              @ vn @ [0x02, 0x54, 0x31] @ [0x02, 0x01, 0x61, 0x01, 0x62]))"
    by (rule sample_packet)
  define pre :: buffer where "pre = [0xB3, 0x2A, 0x83, of_nat (20 + length vn)]"
  define sec where "sec = be_bytes 4 (millis div 1000)"
  define tid :: buffer where "tid = [0x02, 0x54, 0x31]"
  define tgs :: buffer where "tgs = [0x02, 0x01, 0x61, 0x01, 0x62]"
  define crc where "crc = crc32 (pre @ sec @ vn @ tid @ tgs)"
  define bytes where "bytes = pre @ sec @ vn @ tid @ tgs @ crc"
  define R where "R = (sample_record millis)\<lparr>packet := packet_of (20 + length vn)
      (no_flags\<lparr>flag_testId := True, flag_timestamp := True, flag_tags := True\<rparr>)\<rparr>"
  have lens: "length pre = 4" "length sec = 4" "length tid = 3" "length tgs = 5"
    "length crc = 4"
    by (simp_all add: pre_def sec_def tid_def tgs_def crc_def length_be_bytes length_crc32)
  have L: "length bytes = 20 + length vn" by (simp add: bytes_def lens)
  have enc': "ObjectToSubunitStream_transform (sample_record millis) = Inr bytes"
    unfolding enc by (simp add: bytes_def crc_def pre_def sec_def tid_def tgs_def)
  have h1: "readUInt8 bytes 0 = Inr 0xB3"
    by (simp add: bytes_def pre_def readUInt8_def readUIntBE_def slice_def be_value_def)
  have h2: "readUInt16BE bytes 1 = Inr 0x2A83"
    using transform_flags [OF enc'] by (simp only: sample_flags)
  have "readVarInt ([0xB3, 0x2A, 0x83] @ (of_nat (20 + length vn) # sec @ vn @ tid @ tgs @ crc))
          (length [0xB3, 0x2A, 0x83 :: byte]) = Inr (1, 20 + length vn)"
    unfolding readVarInt_shift using len by (intro readVarInt_1) simp
  then have h3: "readVarInt bytes 3 = Inr (1, 20 + length vn)"
    by (simp add: bytes_def pre_def numeral_3_eq_3)
  have F1: "read_timestamp bytes (r, 4) = Inr (r\<lparr>timestamp := Some millis\<rparr>, 8 + length vn)"
    for r
    using read_timestamp_written [OF assms vn, of pre "tid @ tgs @ crc" r]
    by (simp add: bytes_def sec_def lens)
  have F2: "read_testId bytes (r, 8 + length vn) =
      Inr (r\<lparr>testId := Some (js ''T1'')\<rparr>, 11 + length vn)" for r
    using read_testId_written [OF sample_testId sample_well_formed(1),
        of "pre @ sec @ vn" "tgs @ crc" r]
    by (simp add: bytes_def tid_def lens)
  have F3: "read_tags bytes (r, 11 + length vn) =
      Inr (r\<lparr>tags := Some [js ''a'', js ''b'']\<rparr>, 16 + length vn)" for r
    using read_tags_written [OF sample_tags sample_well_formed(2),
        of "pre @ sec @ vn @ tid" "crc" r]
    by (simp add: bytes_def tgs_def lens)
  have rr: "read_record bytes 0 0x2A83 (1, 20 + length vn) = Inr R"
    by (simp add: read_record_def when_flag_def decode_flags_def decode_status_def
        statusFlags_def table_value_def mask_defs F1 F2 F3 R_def sample_record_def
        empty_record_def packet_of_def no_flags_def)
  let ?d = "\<lparr> bl = bytes, offset = 0, error_listener = l \<rparr>"
  let ?d' = "\<lparr> bl = bytes, offset = 20 + length vn, error_listener = l \<rparr>"
  have step: "decode_step ?d = Next [Data R] ?d'"
    by (simp add: decode_step_def h1 h2 h3 rr signature_def del: One_nat_def)
  have "decode_loop ?d [] = decode_loop ?d' ([] @ [Data R])"
    using step by (intro decode_loop_Next) (simp_all add: L)
  also have "\<dots> = Some (?d', [Data R], None)"
    by (subst decode_loop_done) (simp_all add: L)
  finally have "SubunitToObjectStream_transform (SubunitToObjectStream l) bytes =
      Some (?d', [Data R], None)"
    by (simp only: transform_start)
  then have "SubunitToObjectStream_transform (SubunitToObjectStream l) bytes =
         Some (\<lparr> bl = bytes, offset = length bytes, error_listener = l \<rparr>,
               [Data ((sample_record millis)\<lparr>packet := packet_of (length bytes)
                  (no_flags\<lparr>flag_testId := True, flag_timestamp := True,
                            flag_tags := True\<rparr>)\<rparr>)],
               None)"
    by (simp only: L R_def)
  with enc' show ?thesis by blast
qed

theorem record_round_trip_witness:
  "(0::int) \<le> 1478000000123 \<and> (1478000000123::int) < 4294967296000
   \<and> (\<exists>bytes. ObjectToSubunitStream_transform (sample_record 1478000000123) = Inr bytes
     \<and> SubunitToObjectStream_transform (SubunitToObjectStream True) bytes =
         Some (\<lparr> bl = bytes, offset = length bytes, error_listener = True \<rparr>,
               [Data ((sample_record 1478000000123)\<lparr>packet := packet_of (length bytes)
                  (no_flags\<lparr>flag_testId := True, flag_timestamp := True,
                            flag_tags := True\<rparr>)\<rparr>)],
               None))"
proof -
  have a: "(0::int) \<le> 1478000000123" by simp
  have b: "(1478000000123::int) < 4294967296000" by simp
  from a b record_round_trip [OF a b, of True] show ?thesis by blast
qed

end
